theory Spec2Isabelle
  imports Main "HOL-Library.Word"
begin

unbundle bit_operations_syntax

section \<open>Outcomes of a call\<close>

text \<open>
  A call of the Python code returns a value, raises an exception, or never comes back
  (the loop of \<open>gf_mult\<close> on a negative multiplier). The exceptions are the ones
  the interpreter raises by itself (\<open>IndexError\<close>, \<open>ValueError\<close>); the sources
  define no exception class of their own. \<open>InvalidKeyLength\<close> is the failure the
  specification gives to key expansion.
\<close>

datatype error = IndexError | ValueError | InvalidKeyLength

datatype 'a outcome = Returns 'a | Raises error | Diverges

fun and_then :: "'a outcome \<Rightarrow> ('a \<Rightarrow> 'b outcome) \<Rightarrow> 'b outcome" where
  "and_then (Returns x) f = f x"
| "and_then (Raises e) f = Raises e"
| "and_then Diverges f = Diverges"

text \<open>A list comprehension, or a loop that appends one element per iteration.\<close>

fun for_each :: "('a \<Rightarrow> 'b outcome) \<Rightarrow> 'a list \<Rightarrow> 'b list outcome" where
  "for_each f [] = Returns []"
| "for_each f (x # xs) =
     and_then (f x) (\<lambda>y. and_then (for_each f xs) (\<lambda>ys. Returns (y # ys)))"

text \<open>\<open>xs[i]\<close> for an index that is not negative: out of range raises.\<close>

definition item :: "'a list \<Rightarrow> nat \<Rightarrow> 'a outcome" where
  "item xs i = (if i < length xs then Returns (xs ! i) else Raises IndexError)"

text \<open>
  A \<open>bytes\<close> object is a sequence of 8-bit values; indexing it gives a Python integer.
  A state is a list of rows of Python integers.
\<close>

type_synonym bytes = "8 word list"
type_synonym state = "int list list"

definition byte_at :: "bytes \<Rightarrow> nat \<Rightarrow> int outcome" where
  "byte_at data i = (if i < length data then Returns (uint (data ! i)) else Raises IndexError)"

text \<open>\<open>bytes(xs)\<close> raises \<open>ValueError\<close> unless every element is in \<open>range(256)\<close>.\<close>

definition to_bytes :: "int list \<Rightarrow> bytes outcome" where
  "to_bytes xs =
     (if list_all (\<lambda>x. 0 \<le> x \<and> x < 256) xs then Returns (map word_of_int xs)
      else Raises ValueError)"

section \<open>GF(2^8) arithmetic (encryption/mix_columns.py, decryption/inv_mix_columns.py)\<close>

definition xtime :: "int \<Rightarrow> int" where
  "xtime a =
     (if a AND 0x80 \<noteq> 0 then (push_bit 1 a XOR 0x1b) AND 0xff
      else push_bit 1 a AND 0xff)"

text \<open>
  The \<open>while temp_b:\<close> loop. On a negative \<open>temp_b\<close> the shift never reaches 0, so
  the loop is a partial function: \<open>None\<close> is "does not return".
\<close>

partial_function (option) gf_mult_loop :: "int \<Rightarrow> int \<Rightarrow> int \<Rightarrow> int option" where
  "gf_mult_loop result temp_a temp_b =
     (if temp_b \<noteq> 0
      then gf_mult_loop (if temp_b AND 1 \<noteq> 0 then result XOR temp_a else result)
             (xtime temp_a) (drop_bit 1 temp_b)
      else Some result)"

declare gf_mult_loop.simps [code]

definition gf_mult :: "int \<Rightarrow> int \<Rightarrow> int outcome" where
  "gf_mult a b = (case gf_mult_loop 0 a b of Some result \<Rightarrow> Returns result | None \<Rightarrow> Diverges)"

text \<open>\<open>e1 ^ e2\<close> where both operands are calls, evaluated left to right.\<close>

definition xor_of :: "int outcome \<Rightarrow> int outcome \<Rightarrow> int outcome" where
  "xor_of m1 m2 = and_then m1 (\<lambda>a. and_then m2 (\<lambda>b. Returns (a XOR b)))"

section \<open>MixColumns and InvMixColumns\<close>

text \<open>\<open>s0, s1, s2, s3 = column\<close> raises \<open>ValueError\<close> unless the column has four elements.\<close>

fun mix_single_column :: "int list \<Rightarrow> int list outcome" where
  "mix_single_column [s0, s1, s2, s3] =
     and_then (xor_of (xor_of (xor_of (gf_mult 0x02 s0) (gf_mult 0x03 s1)) (Returns s2)) (Returns s3)) (\<lambda>r0.
     and_then (xor_of (xor_of (xor_of (Returns s0) (gf_mult 0x02 s1)) (gf_mult 0x03 s2)) (Returns s3)) (\<lambda>r1.
     and_then (xor_of (xor_of (xor_of (Returns s0) (Returns s1)) (gf_mult 0x02 s2)) (gf_mult 0x03 s3)) (\<lambda>r2.
     and_then (xor_of (xor_of (xor_of (gf_mult 0x03 s0) (Returns s1)) (Returns s2)) (gf_mult 0x02 s3)) (\<lambda>r3.
     Returns [r0, r1, r2, r3]))))"
| "mix_single_column column = Raises ValueError"

fun inv_mix_single_column :: "int list \<Rightarrow> int list outcome" where
  "inv_mix_single_column [s0, s1, s2, s3] =
     and_then (xor_of (xor_of (xor_of (gf_mult 0x0e s0) (gf_mult 0x0b s1)) (gf_mult 0x0d s2)) (gf_mult 0x09 s3)) (\<lambda>r0.
     and_then (xor_of (xor_of (xor_of (gf_mult 0x09 s0) (gf_mult 0x0e s1)) (gf_mult 0x0b s2)) (gf_mult 0x0d s3)) (\<lambda>r1.
     and_then (xor_of (xor_of (xor_of (gf_mult 0x0d s0) (gf_mult 0x09 s1)) (gf_mult 0x0e s2)) (gf_mult 0x0b s3)) (\<lambda>r2.
     and_then (xor_of (xor_of (xor_of (gf_mult 0x0b s0) (gf_mult 0x0d s1)) (gf_mult 0x09 s2)) (gf_mult 0x0e s3)) (\<lambda>r3.
     Returns [r0, r1, r2, r3]))))"
| "inv_mix_single_column column = Raises ValueError"

text \<open>\<open>[state[row][col] for row in range(4)]\<close>\<close>

definition column_of :: "state \<Rightarrow> nat \<Rightarrow> int list outcome" where
  "column_of state col =
     for_each (\<lambda>row. and_then (item state row) (\<lambda>r. item r col)) [0, 1, 2, 3]"

text \<open>\<open>for row in range(4): result[row][col] = new_column[row]\<close> on the 4x4 result.\<close>

fun put_column :: "state \<Rightarrow> nat \<Rightarrow> int list \<Rightarrow> nat list \<Rightarrow> state outcome" where
  "put_column result col new_column [] = Returns result"
| "put_column result col new_column (row # rows) =
     and_then (item new_column row) (\<lambda>v.
     and_then (item result row) (\<lambda>r.
       if col < length r then put_column (result[row := r[col := v]]) col new_column rows
       else Raises IndexError))"

fun columns_loop :: "(int list \<Rightarrow> int list outcome) \<Rightarrow> state \<Rightarrow> nat list \<Rightarrow> state \<Rightarrow> state outcome" where
  "columns_loop f state [] result = Returns result"
| "columns_loop f state (col # cols) result =
     and_then (column_of state col) (\<lambda>column.
     and_then (f column) (\<lambda>new_column.
     and_then (put_column result col new_column [0, 1, 2, 3]) (\<lambda>result.
       columns_loop f state cols result)))"

definition mix_columns :: "state \<Rightarrow> state outcome" where
  "mix_columns state =
     columns_loop mix_single_column state [0, 1, 2, 3] (replicate 4 (replicate 4 0))"

definition inv_mix_columns :: "state \<Rightarrow> state outcome" where
  "inv_mix_columns state =
     columns_loop inv_mix_single_column state [0, 1, 2, 3] (replicate 4 (replicate 4 0))"

section \<open>ShiftRows and InvShiftRows\<close>

text \<open>
  Slices never raise; \<open>row[-k:]\<close> is \<open>drop (length row - k) row\<close> and \<open>row[:-k]\<close> is
  \<open>take (length row - k) row\<close>, the subtraction stopping at 0 as the slice bound does.
\<close>

definition shift_rows :: "state \<Rightarrow> state outcome" where
  "shift_rows state =
     and_then (item state 0) (\<lambda>r0.
     and_then (item state 1) (\<lambda>r1.
     and_then (item state 2) (\<lambda>r2.
     and_then (item state 3) (\<lambda>r3.
       Returns [r0, drop 1 r1 @ take 1 r1, drop 2 r2 @ take 2 r2, drop 3 r3 @ take 3 r3]))))"

definition inv_shift_rows :: "state \<Rightarrow> state outcome" where
  "inv_shift_rows state =
     and_then (item state 0) (\<lambda>r0.
     and_then (item state 1) (\<lambda>r1.
     and_then (item state 2) (\<lambda>r2.
     and_then (item state 3) (\<lambda>r3.
       Returns [r0,
                drop (length r1 - 1) r1 @ take (length r1 - 1) r1,
                drop (length r2 - 2) r2 @ take (length r2 - 2) r2,
                drop (length r3 - 3) r3 @ take (length r3 - 3) r3]))))"

section \<open>AddRoundKey (decryption/add_round_key.py)\<close>

text \<open>
  Embedded from decryption/add_round_key.py. The add_round_key.py of the encryption
  package is not among the sources; the decryption module's docstring says it is the same
  as encryption, and section 4.4 of the specification has one AddRoundKey, identical in
  both directions, so \<open>encrypt_block\<close> uses this definition too.
\<close>

definition add_round_key :: "state \<Rightarrow> state \<Rightarrow> state outcome" where
  "add_round_key state round_key =
     for_each (\<lambda>i.
       for_each (\<lambda>j.
         and_then (item state i) (\<lambda>si.
         and_then (item si j) (\<lambda>a.
         and_then (item round_key i) (\<lambda>ki.
         and_then (item ki j) (\<lambda>b. Returns (a XOR b))))))
       [0, 1, 2, 3])
     [0, 1, 2, 3]"

section \<open>S-box, SubBytes, InvSubBytes\<close>

text \<open>
  encryption/sub_bytes.py and decryption/inv_sub_bytes.py, with the tables they use, are
  not among the sources; the definitions of this section follow sections 4.2 and 4.4 of
  the specification.
\<close>

text \<open>
  Modelled from the spec: the forward S-box table (the sources import it as \<open>S_BOX\<close>
  from the missing encryption/key_expansion.py). Section 4.2: a fixed 256-entry table
  whose values match the published FIPS-197 table exactly.
\<close>

definition S_BOX :: "int list" where
  "S_BOX = [
   0x63, 0x7c, 0x77, 0x7b, 0xf2, 0x6b, 0x6f, 0xc5, 0x30, 0x01, 0x67, 0x2b, 0xfe, 0xd7, 0xab, 0x76,
   0xca, 0x82, 0xc9, 0x7d, 0xfa, 0x59, 0x47, 0xf0, 0xad, 0xd4, 0xa2, 0xaf, 0x9c, 0xa4, 0x72, 0xc0,
   0xb7, 0xfd, 0x93, 0x26, 0x36, 0x3f, 0xf7, 0xcc, 0x34, 0xa5, 0xe5, 0xf1, 0x71, 0xd8, 0x31, 0x15,
   0x04, 0xc7, 0x23, 0xc3, 0x18, 0x96, 0x05, 0x9a, 0x07, 0x12, 0x80, 0xe2, 0xeb, 0x27, 0xb2, 0x75,
   0x09, 0x83, 0x2c, 0x1a, 0x1b, 0x6e, 0x5a, 0xa0, 0x52, 0x3b, 0xd6, 0xb3, 0x29, 0xe3, 0x2f, 0x84,
   0x53, 0xd1, 0x00, 0xed, 0x20, 0xfc, 0xb1, 0x5b, 0x6a, 0xcb, 0xbe, 0x39, 0x4a, 0x4c, 0x58, 0xcf,
   0xd0, 0xef, 0xaa, 0xfb, 0x43, 0x4d, 0x33, 0x85, 0x45, 0xf9, 0x02, 0x7f, 0x50, 0x3c, 0x9f, 0xa8,
   0x51, 0xa3, 0x40, 0x8f, 0x92, 0x9d, 0x38, 0xf5, 0xbc, 0xb6, 0xda, 0x21, 0x10, 0xff, 0xf3, 0xd2,
   0xcd, 0x0c, 0x13, 0xec, 0x5f, 0x97, 0x44, 0x17, 0xc4, 0xa7, 0x7e, 0x3d, 0x64, 0x5d, 0x19, 0x73,
   0x60, 0x81, 0x4f, 0xdc, 0x22, 0x2a, 0x90, 0x88, 0x46, 0xee, 0xb8, 0x14, 0xde, 0x5e, 0x0b, 0xdb,
   0xe0, 0x32, 0x3a, 0x0a, 0x49, 0x06, 0x24, 0x5c, 0xc2, 0xd3, 0xac, 0x62, 0x91, 0x95, 0xe4, 0x79,
   0xe7, 0xc8, 0x37, 0x6d, 0x8d, 0xd5, 0x4e, 0xa9, 0x6c, 0x56, 0xf4, 0xea, 0x65, 0x7a, 0xae, 0x08,
   0xba, 0x78, 0x25, 0x2e, 0x1c, 0xa6, 0xb4, 0xc6, 0xe8, 0xdd, 0x74, 0x1f, 0x4b, 0xbd, 0x8b, 0x8a,
   0x70, 0x3e, 0xb5, 0x66, 0x48, 0x03, 0xf6, 0x0e, 0x61, 0x35, 0x57, 0xb9, 0x86, 0xc1, 0x1d, 0x9e,
   0xe1, 0xf8, 0x98, 0x11, 0x69, 0xd9, 0x8e, 0x94, 0x9b, 0x1e, 0x87, 0xe9, 0xce, 0x55, 0x28, 0xdf,
   0x8c, 0xa1, 0x89, 0x0d, 0xbf, 0xe6, 0x42, 0x68, 0x41, 0x99, 0x2d, 0x0f, 0xb0, 0x54, 0xbb, 0x16]"

text \<open>
  Modelled from the spec: the inverse S-box table of the missing
  decryption/inv_sub_bytes.py. Section 4.2: the exact inverse of the forward table, as
  published in FIPS-197.
\<close>

definition INV_S_BOX :: "int list" where
  "INV_S_BOX = [
   0x52, 0x09, 0x6a, 0xd5, 0x30, 0x36, 0xa5, 0x38, 0xbf, 0x40, 0xa3, 0x9e, 0x81, 0xf3, 0xd7, 0xfb,
   0x7c, 0xe3, 0x39, 0x82, 0x9b, 0x2f, 0xff, 0x87, 0x34, 0x8e, 0x43, 0x44, 0xc4, 0xde, 0xe9, 0xcb,
   0x54, 0x7b, 0x94, 0x32, 0xa6, 0xc2, 0x23, 0x3d, 0xee, 0x4c, 0x95, 0x0b, 0x42, 0xfa, 0xc3, 0x4e,
   0x08, 0x2e, 0xa1, 0x66, 0x28, 0xd9, 0x24, 0xb2, 0x76, 0x5b, 0xa2, 0x49, 0x6d, 0x8b, 0xd1, 0x25,
   0x72, 0xf8, 0xf6, 0x64, 0x86, 0x68, 0x98, 0x16, 0xd4, 0xa4, 0x5c, 0xcc, 0x5d, 0x65, 0xb6, 0x92,
   0x6c, 0x70, 0x48, 0x50, 0xfd, 0xed, 0xb9, 0xda, 0x5e, 0x15, 0x46, 0x57, 0xa7, 0x8d, 0x9d, 0x84,
   0x90, 0xd8, 0xab, 0x00, 0x8c, 0xbc, 0xd3, 0x0a, 0xf7, 0xe4, 0x58, 0x05, 0xb8, 0xb3, 0x45, 0x06,
   0xd0, 0x2c, 0x1e, 0x8f, 0xca, 0x3f, 0x0f, 0x02, 0xc1, 0xaf, 0xbd, 0x03, 0x01, 0x13, 0x8a, 0x6b,
   0x3a, 0x91, 0x11, 0x41, 0x4f, 0x67, 0xdc, 0xea, 0x97, 0xf2, 0xcf, 0xce, 0xf0, 0xb4, 0xe6, 0x73,
   0x96, 0xac, 0x74, 0x22, 0xe7, 0xad, 0x35, 0x85, 0xe2, 0xf9, 0x37, 0xe8, 0x1c, 0x75, 0xdf, 0x6e,
   0x47, 0xf1, 0x1a, 0x71, 0x1d, 0x29, 0xc5, 0x89, 0x6f, 0xb7, 0x62, 0x0e, 0xaa, 0x18, 0xbe, 0x1b,
   0xfc, 0x56, 0x3e, 0x4b, 0xc6, 0xd2, 0x79, 0x20, 0x9a, 0xdb, 0xc0, 0xfe, 0x78, 0xcd, 0x5a, 0xf4,
   0x1f, 0xdd, 0xa8, 0x33, 0x88, 0x07, 0xc7, 0x31, 0xb1, 0x12, 0x10, 0x59, 0x27, 0x80, 0xec, 0x5f,
   0x60, 0x51, 0x7f, 0xa9, 0x19, 0xb5, 0x4a, 0x0d, 0x2d, 0xe5, 0x7a, 0x9f, 0x93, 0xc9, 0x9c, 0xef,
   0xa0, 0xe0, 0x3b, 0x4d, 0xae, 0x2a, 0xf5, 0xb0, 0xc8, 0xeb, 0xbb, 0x3c, 0x83, 0x53, 0x99, 0x61,
   0x17, 0x2b, 0x04, 0x7e, 0xba, 0x77, 0xd6, 0x26, 0xe1, 0x69, 0x14, 0x63, 0x55, 0x21, 0x0c, 0x7d]"

text \<open>
  Modelled from the spec: the table lookup of the missing sub_bytes.py and
  inv_sub_bytes.py. Section 4.4 replaces a byte by its table entry; a value that is not a
  byte has no entry and the lookup raises.
\<close>

definition substitute :: "int list \<Rightarrow> int \<Rightarrow> int outcome" where
  "substitute table b =
     (if 0 \<le> b \<and> b < int (length table) then Returns (table ! nat b) else Raises IndexError)"

text \<open>
  Modelled from the spec: \<open>sub_bytes\<close> of the missing encryption/sub_bytes.py. Section
  4.4: replace every byte of the state via the forward S-box.
\<close>

definition sub_bytes :: "state \<Rightarrow> state outcome" where
  "sub_bytes state = for_each (for_each (substitute S_BOX)) state"

text \<open>
  Modelled from the spec: \<open>inv_sub_bytes\<close> of the missing decryption/inv_sub_bytes.py.
  Section 4.4: replace every byte of the state via the inverse S-box.
\<close>

definition inv_sub_bytes :: "state \<Rightarrow> state outcome" where
  "inv_sub_bytes state = for_each (for_each (substitute INV_S_BOX)) state"

section \<open>Key schedule\<close>

text \<open>
  encryption/key_expansion.py is not among the sources (decryption/key_expansion.py only
  re-exports its \<open>key_expansion\<close>, \<open>S_BOX\<close>, \<open>RCON\<close>, \<open>rot_word\<close>,
  \<open>sub_word\<close> and \<open>xor_words\<close>); the definitions of this section follow section
  4.3 of the specification, on the bytes and 4-byte words of its section 3.
\<close>

text \<open>
  Modelled from the spec: the table \<open>RCON\<close> of the missing key_expansion.py. Section
  4.3: Rcon[1] = 01 00 00 00 and each later entry has the leading byte doubled in GF(2^8);
  entry 0 is never read.
\<close>

definition RCON :: "8 word list list" where
  "RCON = [[0x00, 0, 0, 0], [0x01, 0, 0, 0], [0x02, 0, 0, 0], [0x04, 0, 0, 0],
           [0x08, 0, 0, 0], [0x10, 0, 0, 0], [0x20, 0, 0, 0], [0x40, 0, 0, 0],
           [0x80, 0, 0, 0], [0x1b, 0, 0, 0], [0x36, 0, 0, 0]]"

text \<open>
  Modelled from the spec: \<open>rot_word\<close> of the missing key_expansion.py. Section 4.3:
  RotWord cyclically left-rotates the 4 bytes by one position.
\<close>

definition rot_word :: "8 word list \<Rightarrow> 8 word list" where
  "rot_word w = drop 1 w @ take 1 w"

text \<open>
  Modelled from the spec: \<open>sub_word\<close> of the missing key_expansion.py. Section 4.3:
  SubWord applies the S-box to each byte.
\<close>

definition sub_word :: "8 word list \<Rightarrow> 8 word list" where
  "sub_word w = map (\<lambda>b. word_of_int (S_BOX ! unat b)) w"

text \<open>
  Modelled from the spec: \<open>xor_words\<close> of the missing key_expansion.py, the bytewise
  XOR of two words of section 4.3.
\<close>

definition xor_words :: "8 word list \<Rightarrow> 8 word list \<Rightarrow> 8 word list" where
  "xor_words a b = map (\<lambda>(x, y). x XOR y) (zip a b)"

text \<open>
  Modelled from the spec: the word loop of the missing \<open>key_expansion\<close>. Section 4.3:
  for word index i from 4 to 43, temp = word[i-1]; if i mod 4 = 0 then
  temp = SubWord(RotWord(temp)) XOR Rcon[i/4]; word[i] = word[i-4] XOR temp.
\<close>

fun key_expansion_loop :: "nat list \<Rightarrow> 8 word list list \<Rightarrow> 8 word list list" where
  "key_expansion_loop [] words = words"
| "key_expansion_loop (i # rest) words =
     (let temp = words ! (i - 1);
          temp = (if i mod 4 = 0 then xor_words (sub_word (rot_word temp)) (RCON ! (i div 4))
                  else temp)
      in key_expansion_loop rest (words @ [xor_words (words ! (i - 4)) temp]))"

text \<open>
  Modelled from the spec: the arrangement of a round key in the missing
  \<open>key_expansion\<close>. Section 4.3: round key r is words 4r to 4r+3 arranged as a state,
  one word per column (section 3: column-major).
\<close>

definition round_key_of :: "8 word list list \<Rightarrow> nat \<Rightarrow> state" where
  "round_key_of words r =
     map (\<lambda>row. map (\<lambda>col. uint (words ! (4 * r + col) ! row)) [0, 1, 2, 3]) [0, 1, 2, 3]"

text \<open>
  Modelled from the spec: \<open>key_expansion\<close> of the missing encryption/key_expansion.py.
  Section 4.3: exactly 16 key bytes, InvalidKeyLength otherwise; words 0 to 3 equal the
  key; the output is the 11 round keys of the 44 words.
\<close>

definition key_expansion :: "bytes \<Rightarrow> state list outcome" where
  "key_expansion key =
     (if length key \<noteq> 16 then Raises InvalidKeyLength
      else let words = key_expansion_loop [4..<44]
                         [take 4 key, take 4 (drop 4 key), take 4 (drop 8 key), take 4 (drop 12 key)]
           in Returns (map (round_key_of words) [0..<11]))"

section \<open>Block cipher (aes_encrypt.py, aes_decrypt.py)\<close>

text \<open>
  The \<open>verbose\<close> printing of the sources changes no value and is left out.
  \<open>bytes_to_state\<close>: for each row, \<open>[data[row + 4*col] for col in range(4)]\<close>; data
  shorter than 16 bytes raises \<open>IndexError\<close>, bytes beyond the sixteenth are never read.
\<close>

definition bytes_to_state :: "bytes \<Rightarrow> state outcome" where
  "bytes_to_state data =
     for_each (\<lambda>row. for_each (\<lambda>col. byte_at data (row + 4 * col)) [0, 1, 2, 3]) [0, 1, 2, 3]"

text \<open>
  \<open>state_to_bytes\<close>: \<open>for col in range(4): for row in range(4):
  result.append(state[row][col])\<close>, then \<open>bytes(result)\<close>.
\<close>

definition state_to_bytes :: "state \<Rightarrow> bytes outcome" where
  "state_to_bytes state =
     and_then
       (for_each (\<lambda>(col, row). and_then (item state row) (\<lambda>r. item r col))
          (concat (map (\<lambda>col. map (\<lambda>row. (col, row)) [0, 1, 2, 3]) [0, 1, 2, 3])))
       to_bytes"

text \<open>The main rounds of \<open>encrypt_block\<close>: \<open>for round_num in range(1, Nr)\<close>.\<close>

fun encrypt_rounds :: "state list \<Rightarrow> nat list \<Rightarrow> state \<Rightarrow> state outcome" where
  "encrypt_rounds round_keys [] state = Returns state"
| "encrypt_rounds round_keys (round_num # rest) state =
     and_then (sub_bytes state) (\<lambda>state.
     and_then (shift_rows state) (\<lambda>state.
     and_then (mix_columns state) (\<lambda>state.
     and_then (item round_keys round_num) (\<lambda>round_key.
     and_then (add_round_key state round_key) (\<lambda>state.
       encrypt_rounds round_keys rest state)))))"

definition encrypt_block :: "bytes \<Rightarrow> bytes \<Rightarrow> bytes outcome" where
  "encrypt_block plaintext key =
     (let Nr = 10 in
      and_then (key_expansion key) (\<lambda>round_keys.
      and_then (bytes_to_state plaintext) (\<lambda>state.
      and_then (item round_keys 0) (\<lambda>round_key.
      and_then (add_round_key state round_key) (\<lambda>state.
      and_then (encrypt_rounds round_keys [1..<Nr] state) (\<lambda>state.
      and_then (sub_bytes state) (\<lambda>state.
      and_then (shift_rows state) (\<lambda>state.
      and_then (item round_keys Nr) (\<lambda>round_key.
      and_then (add_round_key state round_key) (\<lambda>state.
        state_to_bytes state))))))))))"

text \<open>The main rounds of \<open>decrypt_block\<close>: \<open>for round_num in range(Nr - 1, 0, -1)\<close>.\<close>

fun decrypt_rounds :: "state list \<Rightarrow> nat list \<Rightarrow> state \<Rightarrow> state outcome" where
  "decrypt_rounds round_keys [] state = Returns state"
| "decrypt_rounds round_keys (round_num # rest) state =
     and_then (inv_shift_rows state) (\<lambda>state.
     and_then (inv_sub_bytes state) (\<lambda>state.
     and_then (item round_keys round_num) (\<lambda>round_key.
     and_then (add_round_key state round_key) (\<lambda>state.
     and_then (inv_mix_columns state) (\<lambda>state.
       decrypt_rounds round_keys rest state)))))"

definition decrypt_block :: "bytes \<Rightarrow> bytes \<Rightarrow> bytes outcome" where
  "decrypt_block ciphertext key =
     (let Nr = 10 in
      and_then (key_expansion key) (\<lambda>round_keys.
      and_then (bytes_to_state ciphertext) (\<lambda>state.
      and_then (item round_keys Nr) (\<lambda>round_key.
      and_then (add_round_key state round_key) (\<lambda>state.
      and_then (decrypt_rounds round_keys (rev [1..<Nr]) state) (\<lambda>state.
      and_then (inv_shift_rows state) (\<lambda>state.
      and_then (inv_sub_bytes state) (\<lambda>state.
      and_then (item round_keys 0) (\<lambda>round_key.
      and_then (add_round_key state round_key) (\<lambda>state.
        state_to_bytes state))))))))))"

section \<open>Messages: PKCS7 padding and block-by-block processing\<close>

text \<open>\<open>range(0, n, block_size)\<close>\<close>

definition block_offsets :: "nat \<Rightarrow> nat \<Rightarrow> nat list" where
  "block_offsets n block_size = map (\<lambda>k. k * block_size) [0..<(n + block_size - 1) div block_size]"

text \<open>
  The loop of \<open>encrypt\<close> and of \<open>decrypt\<close>, which differ only in the block function:
  \<open>block = input[i:i+block_size]; output += f(block, key)\<close> with \<open>block_size = 16\<close>.
\<close>

fun blocks_loop :: "(bytes \<Rightarrow> bytes \<Rightarrow> bytes outcome) \<Rightarrow> bytes \<Rightarrow> bytes \<Rightarrow> nat list \<Rightarrow> bytes \<Rightarrow> bytes outcome" where
  "blocks_loop f input key [] output = Returns output"
| "blocks_loop f input key (i # rest) output =
     and_then (f (take 16 (drop i input)) key) (\<lambda>block.
       blocks_loop f input key rest (output @ block))"

text \<open>
  \<open>encrypt\<close>: \<open>padding_len = block_size - (len(plaintext) % block_size)\<close> and
  \<open>padded = plaintext + bytes([padding_len] * padding_len)\<close>.
\<close>

definition encrypt :: "bytes \<Rightarrow> bytes \<Rightarrow> bytes outcome" where
  "encrypt plaintext key =
     (let block_size = 16;
          padding_len = block_size - length plaintext mod block_size;
          padded = plaintext @ replicate padding_len (of_nat padding_len)
      in blocks_loop encrypt_block padded key (block_offsets (length padded) block_size) [])"

text \<open>
  \<open>decrypt\<close>: \<open>plaintext[-1]\<close> raises \<open>IndexError\<close> on an empty buffer;
  \<open>plaintext[-padding_len:]\<close> is the last \<open>padding_len\<close> bytes and
  \<open>plaintext[:-padding_len]\<close> the buffer without them. There is no \<open>else\<close> branch:
  a buffer that fails either test is returned as it is.
\<close>

definition decrypt :: "bytes \<Rightarrow> bytes \<Rightarrow> bytes outcome" where
  "decrypt ciphertext key =
     (let block_size = 16 in
      and_then (blocks_loop decrypt_block ciphertext key
                  (block_offsets (length ciphertext) block_size) []) (\<lambda>plaintext.
        if plaintext = [] then Raises IndexError
        else let padding_len = unat (last plaintext) in
          if padding_len > 0 \<and> padding_len \<le> block_size then
            if list_all (\<lambda>b. unat b = padding_len) (drop (length plaintext - padding_len) plaintext)
            then Returns (take (length plaintext - padding_len) plaintext)
            else Returns plaintext
          else Returns plaintext))"

section \<open>Notions used in the statements and proofs\<close>

text \<open>
  A byte value is a Python integer in \<open>range(256)\<close>; a well-formed state is a 4x4 matrix
  of byte values. The test vector is the one of FIPS-197 Appendix B, as in the
  \<open>__main__\<close> blocks of aes_encrypt.py and aes_decrypt.py.
\<close>

definition test_key :: bytes where
  "test_key = [0x2b, 0x7e, 0x15, 0x16, 0x28, 0xae, 0xd2, 0xa6,
               0xab, 0xf7, 0x15, 0x88, 0x09, 0xcf, 0x4f, 0x3c]"

definition test_plaintext :: bytes where
  "test_plaintext = [0x32, 0x43, 0xf6, 0xa8, 0x88, 0x5a, 0x30, 0x8d,
                     0x31, 0x31, 0x98, 0xa2, 0xe0, 0x37, 0x07, 0x34]"

definition expected_ciphertext :: bytes where
  "expected_ciphertext = [0x39, 0x25, 0x84, 0x1d, 0x02, 0xdc, 0x09, 0xfb,
                          0xdc, 0x11, 0x85, 0x97, 0x19, 0x6a, 0x0b, 0x32]"

definition test_state :: state where
  "test_state = [[0xd4, 0xe0, 0xb8, 0x1e], [0xbf, 0xb4, 0x41, 0x27],
                 [0x5d, 0x52, 0x11, 0x98], [0x30, 0xae, 0xf1, 0xe5]]"

definition test_round_key :: state where
  "test_round_key = [[0x2b, 0x28, 0xab, 0x09], [0x7e, 0xae, 0xf7, 0xcf],
                     [0x15, 0xd2, 0x15, 0x4f], [0x16, 0xa6, 0x88, 0x3c]]"

text \<open>A byte value: a Python integer in \<open>range(256)\<close>.\<close>

definition is_byte :: "int \<Rightarrow> bool" where
  "is_byte x = (0 \<le> x \<and> x < 256)"

text \<open>The loop of \<open>gf_mult\<close>, run on the constant \<open>c\<close> and each of the 256 byte values, returns what \<open>f\<close> says.\<close>

definition gf_table_ok :: "int \<Rightarrow> (int \<Rightarrow> int) \<Rightarrow> bool" where
  "gf_table_ok c f = list_all (\<lambda>s. gf_mult_loop 0 c s = Some (f s)) [0..255]"

text \<open>A well-formed state: 4 rows of 4 byte values.\<close>

definition state_ok :: "state \<Rightarrow> bool" where
  "state_ok s = (length s = 4 \<and> list_all (\<lambda>r. length r = 4 \<and> list_all is_byte r) s)"

text \<open>The products by 09, 0b, 0d and 0e written with \<open>xtime\<close>: 9 = 8 + 1, 11 = 8 + 2 + 1, 13 = 8 + 4 + 1, 14 = 8 + 4 + 2.\<close>

definition mul9 :: "int \<Rightarrow> int" where
  "mul9 s = xtime (xtime (xtime s)) XOR s"

definition mul11 :: "int \<Rightarrow> int" where
  "mul11 s = xtime (xtime (xtime s)) XOR xtime s XOR s"

definition mul13 :: "int \<Rightarrow> int" where
  "mul13 s = xtime (xtime (xtime s)) XOR xtime (xtime s) XOR s"

definition mul14 :: "int \<Rightarrow> int" where
  "mul14 s = xtime (xtime (xtime s)) XOR xtime (xtime s) XOR xtime s"

text \<open>The two tables hold byte values and the inverse table undoes the forward one, entry by entry.\<close>

definition sbox_table_ok :: bool where
  "sbox_table_ok =
     list_all (\<lambda>b. is_byte (S_BOX ! nat b) \<and> INV_S_BOX ! nat (S_BOX ! nat b) = b \<and>
                    is_byte (INV_S_BOX ! nat b)) [0..255]"

text \<open>SubBytes followed by ShiftRows, as in every round of \<open>encrypt_block\<close>.\<close>

definition sub_shift :: "state \<Rightarrow> state outcome" where
  "sub_shift s = and_then (sub_bytes s) shift_rows"

text \<open>InvShiftRows followed by InvSubBytes, as in every round of \<open>decrypt_block\<close>.\<close>

definition inv_shift_sub :: "state \<Rightarrow> state outcome" where
  "inv_shift_sub s = and_then (inv_shift_rows s) inv_sub_bytes"

text \<open>The buffer \<open>decrypt\<close> holds after its block loop, before it looks at the padding.\<close>

definition decrypted_buffer :: "bytes \<Rightarrow> bytes \<Rightarrow> bytes outcome" where
  "decrypted_buffer ciphertext key =
     blocks_loop decrypt_block ciphertext key (block_offsets (length ciphertext) 16) []"

text \<open>The test of \<open>decrypt\<close>: the trailing byte n satisfies 0 < n <= 16 and the last n bytes all equal n.\<close>

definition padding_ok :: "bytes \<Rightarrow> bool" where
  "padding_ok buf =
     (let n = unat (last buf)
      in 0 < n \<and> n \<le> 16 \<and> list_all (\<lambda>b. unat b = n) (drop (length buf - n) buf))"

text \<open>The number of pad bytes \<open>encrypt\<close> appends to a plaintext of the given length.\<close>

definition pad_length :: "nat \<Rightarrow> nat" where
  "pad_length len = 16 - len mod 16"

text \<open>The padded plaintext that \<open>encrypt\<close> splits into blocks.\<close>

definition pkcs7_padded :: "bytes \<Rightarrow> bytes" where
  "pkcs7_padded m = m @ replicate (pad_length (length m)) (of_nat (pad_length (length m)))"

text \<open>A malformed PKCS7 trailer: the trailing byte n is 0, or more than 16, or the last n bytes are not all equal to n.\<close>

definition pkcs7_invalid :: "bytes \<Rightarrow> bool" where
  "pkcs7_invalid buf =
     (let n = unat (last buf)
      in n = 0 \<or> 16 < n \<or> \<not> list_all (\<lambda>b. unat b = n) (drop (length buf - n) buf))"

section \<open>Lemmas\<close>

lemma gf_table_okD: "gf_table_ok c f \<Longrightarrow> is_byte s \<Longrightarrow> gf_mult c s = Returns (f s)"
  by (auto simp: gf_table_ok_def list_all_iff is_byte_def gf_mult_def)

lemma gf_table_02: "gf_table_ok 0x02 xtime"
  unfolding gf_table_ok_def by code_simp

lemma gf_table_03: "gf_table_ok 0x03 (\<lambda>s. xtime s XOR s)"
  unfolding gf_table_ok_def by code_simp

lemma gf_table_09: "gf_table_ok 0x09 (\<lambda>s. xtime (xtime (xtime s)) XOR s)"
  unfolding gf_table_ok_def by code_simp

lemma gf_table_0b: "gf_table_ok 0x0b (\<lambda>s. xtime (xtime (xtime s)) XOR xtime s XOR s)"
  unfolding gf_table_ok_def by code_simp

lemma gf_table_0d: "gf_table_ok 0x0d (\<lambda>s. xtime (xtime (xtime s)) XOR xtime (xtime s) XOR s)"
  unfolding gf_table_ok_def by code_simp

lemma gf_table_0e: "gf_table_ok 0x0e (\<lambda>s. xtime (xtime (xtime s)) XOR xtime (xtime s) XOR xtime s)"
  unfolding gf_table_ok_def by code_simp

lemmas gf_mult_byte =
  gf_table_okD[OF gf_table_02] gf_table_okD[OF gf_table_03] gf_table_okD[OF gf_table_09]
  gf_table_okD[OF gf_table_0b] gf_table_okD[OF gf_table_0d] gf_table_okD[OF gf_table_0e]

lemma high_bit: "(a AND (0x80::int) \<noteq> 0) = bit a 7"
proof -
  have "(a AND 2 ^ 7 = 0) = (\<not> bit a 7)"
    by (rule and_exp_eq_0_iff_not_bit)
  then show ?thesis by simp
qed

lemma xtime_alt: "xtime a = (push_bit 1 a AND 0xff) XOR (if bit a 7 then 0x1b else 0)"
  by (simp add: xtime_def high_bit bit.conj_xor_distrib2)

lemma xtime_xor: "xtime (a XOR b) = xtime a XOR xtime b"
  by (simp add: xtime_alt bit_xor_iff bit.conj_xor_distrib2 xor.assoc xor.commute xor.left_commute)

lemma is_byte_xtime: "is_byte (xtime a)"
  by (simp add: xtime_def is_byte_def)

lemma is_byte_xor: "is_byte a \<Longrightarrow> is_byte b \<Longrightarrow> is_byte (a XOR b)"
  using XOR_upper[of a 8 b] by (simp add: is_byte_def)

lemma length4: "length xs = 4 \<Longrightarrow> \<exists>a b c d. xs = [a, b, c, d]"
  by (auto simp: length_Suc_conv eval_nat_numeral)

lemma state_okE:
  assumes "state_ok s"
  obtains a0 a1 a2 a3 b0 b1 b2 b3 c0 c1 c2 c3 d0 d1 d2 d3 where
    "s = [[a0, a1, a2, a3], [b0, b1, b2, b3], [c0, c1, c2, c3], [d0, d1, d2, d3]]"
    "is_byte a0" "is_byte a1" "is_byte a2" "is_byte a3"
    "is_byte b0" "is_byte b1" "is_byte b2" "is_byte b3"
    "is_byte c0" "is_byte c1" "is_byte c2" "is_byte c3"
    "is_byte d0" "is_byte d1" "is_byte d2" "is_byte d3"
proof -
  from assms obtain r0 r1 r2 r3 where s: "s = [r0, r1, r2, r3]"
    using length4[of s] by (auto simp: state_ok_def)
  from assms s have l: "length r0 = 4" "length r1 = 4" "length r2 = 4" "length r3 = 4"
    by (simp_all add: state_ok_def)
  from l obtain a0 a1 a2 a3 where r0: "r0 = [a0, a1, a2, a3]" using length4[of r0] by auto
  from l obtain b0 b1 b2 b3 where r1: "r1 = [b0, b1, b2, b3]" using length4[of r1] by auto
  from l obtain c0 c1 c2 c3 where r2: "r2 = [c0, c1, c2, c3]" using length4[of r2] by auto
  from l obtain d0 d1 d2 d3 where r3: "r3 = [d0, d1, d2, d3]" using length4[of r3] by auto
  show ?thesis
    using assms that[of a0 a1 a2 a3 b0 b1 b2 b3 c0 c1 c2 c3 d0 d1 d2 d3]
    unfolding s r0 r1 r2 r3 state_ok_def by simp
qed

lemma state_ok_4x4:
  "state_ok [[a0, a1, a2, a3], [b0, b1, b2, b3], [c0, c1, c2, c3], [d0, d1, d2, d3]] =
     (is_byte a0 \<and> is_byte a1 \<and> is_byte a2 \<and> is_byte a3 \<and>
      is_byte b0 \<and> is_byte b1 \<and> is_byte b2 \<and> is_byte b3 \<and>
      is_byte c0 \<and> is_byte c1 \<and> is_byte c2 \<and> is_byte c3 \<and>
      is_byte d0 \<and> is_byte d1 \<and> is_byte d2 \<and> is_byte d3)"
  by (simp add: state_ok_def)

lemma mix_single_column_bytes:
  assumes "is_byte s0" "is_byte s1" "is_byte s2" "is_byte s3"
  shows "mix_single_column [s0, s1, s2, s3] =
    Returns [((xtime s0 XOR (xtime s1 XOR s1)) XOR s2) XOR s3,
             ((s0 XOR xtime s1) XOR (xtime s2 XOR s2)) XOR s3,
             ((s0 XOR s1) XOR xtime s2) XOR (xtime s3 XOR s3),
             (((xtime s0 XOR s0) XOR s1) XOR s2) XOR xtime s3]"
  using assms by (simp add: gf_mult_byte xor_of_def)

lemma inv_mix_single_column_bytes:
  assumes "is_byte s0" "is_byte s1" "is_byte s2" "is_byte s3"
  shows "inv_mix_single_column [s0, s1, s2, s3] =
    Returns [((mul14 s0 XOR mul11 s1) XOR mul13 s2) XOR mul9 s3,
             ((mul9 s0 XOR mul14 s1) XOR mul11 s2) XOR mul13 s3,
             ((mul13 s0 XOR mul9 s1) XOR mul14 s2) XOR mul11 s3,
             ((mul11 s0 XOR mul13 s1) XOR mul9 s2) XOR mul14 s3]"
  using assms by (simp add: gf_mult_byte xor_of_def mul9_def mul11_def mul13_def mul14_def)

lemma is_byte_mul: "is_byte s \<Longrightarrow> is_byte (mul9 s) \<and> is_byte (mul11 s) \<and> is_byte (mul13 s) \<and> is_byte (mul14 s)"
  by (simp add: mul9_def mul11_def mul13_def mul14_def is_byte_xor is_byte_xtime)

lemma inv_mix_single_column_returns:
  assumes "is_byte s0" "is_byte s1" "is_byte s2" "is_byte s3"
  shows "\<exists>r0 r1 r2 r3. inv_mix_single_column [s0, s1, s2, s3] = Returns [r0, r1, r2, r3] \<and>
           is_byte r0 \<and> is_byte r1 \<and> is_byte r2 \<and> is_byte r3"
  unfolding inv_mix_single_column_bytes[OF assms]
  using assms by (simp add: is_byte_xor is_byte_mul)

lemma mix_single_column_inverse:
  assumes "is_byte s0" "is_byte s1" "is_byte s2" "is_byte s3"
  shows "\<exists>r0 r1 r2 r3. mix_single_column [s0, s1, s2, s3] = Returns [r0, r1, r2, r3] \<and>
           is_byte r0 \<and> is_byte r1 \<and> is_byte r2 \<and> is_byte r3 \<and>
           inv_mix_single_column [r0, r1, r2, r3] = Returns [s0, s1, s2, s3]"
proof -
  let ?r0 = "((xtime s0 XOR (xtime s1 XOR s1)) XOR s2) XOR s3"
  let ?r1 = "((s0 XOR xtime s1) XOR (xtime s2 XOR s2)) XOR s3"
  let ?r2 = "((s0 XOR s1) XOR xtime s2) XOR (xtime s3 XOR s3)"
  let ?r3 = "(((xtime s0 XOR s0) XOR s1) XOR s2) XOR xtime s3"
  have b: "is_byte ?r0" "is_byte ?r1" "is_byte ?r2" "is_byte ?r3"
    using assms by (simp_all add: is_byte_xor is_byte_xtime)
  have "inv_mix_single_column [?r0, ?r1, ?r2, ?r3] = Returns [s0, s1, s2, s3]"
    unfolding inv_mix_single_column_bytes[OF b]
    by (simp add: mul9_def mul11_def mul13_def mul14_def xtime_xor
          xor.assoc xor.commute xor.left_commute)
  with b mix_single_column_bytes[OF assms] show ?thesis by blast
qed

lemma columns_loop_4x4:
  assumes "f [a0, b0, c0, d0] = Returns [p0, q0, r0, t0]"
    and "f [a1, b1, c1, d1] = Returns [p1, q1, r1, t1]"
    and "f [a2, b2, c2, d2] = Returns [p2, q2, r2, t2]"
    and "f [a3, b3, c3, d3] = Returns [p3, q3, r3, t3]"
  shows "columns_loop f [[a0, a1, a2, a3], [b0, b1, b2, b3], [c0, c1, c2, c3], [d0, d1, d2, d3]]
           [0, 1, 2, 3] (replicate 4 (replicate 4 0)) =
         Returns [[p0, p1, p2, p3], [q0, q1, q2, q3], [r0, r1, r2, r3], [t0, t1, t2, t3]]"
  using assms by (simp add: column_of_def item_def eval_nat_numeral)

lemma mix_columns_inverse_4x4:
  fixes s :: state
  assumes s: "s = [[a0, a1, a2, a3], [b0, b1, b2, b3], [c0, c1, c2, c3], [d0, d1, d2, d3]]"
    and b: "is_byte a0" "is_byte a1" "is_byte a2" "is_byte a3"
    "is_byte b0" "is_byte b1" "is_byte b2" "is_byte b3"
    "is_byte c0" "is_byte c1" "is_byte c2" "is_byte c3"
    "is_byte d0" "is_byte d1" "is_byte d2" "is_byte d3"
  shows "\<exists>s'. mix_columns s = Returns s' \<and> state_ok s' \<and> inv_mix_columns s' = Returns s"
proof -
  obtain p0 q0 r0 t0 where c0: "mix_single_column [a0, b0, c0, d0] = Returns [p0, q0, r0, t0]"
    "is_byte p0" "is_byte q0" "is_byte r0" "is_byte t0"
    "inv_mix_single_column [p0, q0, r0, t0] = Returns [a0, b0, c0, d0]"
    using mix_single_column_inverse[OF b(1) b(5) b(9) b(13)] by (elim exE conjE) (rule that)
  obtain p1 q1 r1 t1 where c1: "mix_single_column [a1, b1, c1, d1] = Returns [p1, q1, r1, t1]"
    "is_byte p1" "is_byte q1" "is_byte r1" "is_byte t1"
    "inv_mix_single_column [p1, q1, r1, t1] = Returns [a1, b1, c1, d1]"
    using mix_single_column_inverse[OF b(2) b(6) b(10) b(14)] by (elim exE conjE) (rule that)
  obtain p2 q2 r2 t2 where c2: "mix_single_column [a2, b2, c2, d2] = Returns [p2, q2, r2, t2]"
    "is_byte p2" "is_byte q2" "is_byte r2" "is_byte t2"
    "inv_mix_single_column [p2, q2, r2, t2] = Returns [a2, b2, c2, d2]"
    using mix_single_column_inverse[OF b(3) b(7) b(11) b(15)] by (elim exE conjE) (rule that)
  obtain p3 q3 r3 t3 where c3: "mix_single_column [a3, b3, c3, d3] = Returns [p3, q3, r3, t3]"
    "is_byte p3" "is_byte q3" "is_byte r3" "is_byte t3"
    "inv_mix_single_column [p3, q3, r3, t3] = Returns [a3, b3, c3, d3]"
    using mix_single_column_inverse[OF b(4) b(8) b(12) b(16)] by (elim exE conjE) (rule that)
  let ?s' = "[[p0, p1, p2, p3], [q0, q1, q2, q3], [r0, r1, r2, r3], [t0, t1, t2, t3]]"
  have "mix_columns s = Returns ?s'"
    unfolding mix_columns_def s by (rule columns_loop_4x4[OF c0(1) c1(1) c2(1) c3(1)])
  moreover have "state_ok ?s'"
    using c0(2-5) c1(2-5) c2(2-5) c3(2-5) by (simp add: state_ok_4x4)
  moreover have "inv_mix_columns ?s' = Returns s"
    unfolding inv_mix_columns_def s by (rule columns_loop_4x4[OF c0(6) c1(6) c2(6) c3(6)])
  ultimately show ?thesis by (intro exI conjI)
qed

lemma inv_mix_columns_returns_4x4:
  fixes s :: state
  assumes s: "s = [[a0, a1, a2, a3], [b0, b1, b2, b3], [c0, c1, c2, c3], [d0, d1, d2, d3]]"
    and b: "is_byte a0" "is_byte a1" "is_byte a2" "is_byte a3"
    "is_byte b0" "is_byte b1" "is_byte b2" "is_byte b3"
    "is_byte c0" "is_byte c1" "is_byte c2" "is_byte c3"
    "is_byte d0" "is_byte d1" "is_byte d2" "is_byte d3"
  shows "\<exists>s'. inv_mix_columns s = Returns s' \<and> state_ok s'"
proof -
  obtain p0 q0 r0 t0 where c0: "inv_mix_single_column [a0, b0, c0, d0] = Returns [p0, q0, r0, t0]"
    "is_byte p0" "is_byte q0" "is_byte r0" "is_byte t0"
    using inv_mix_single_column_returns[OF b(1) b(5) b(9) b(13)] by (elim exE conjE) (rule that)
  obtain p1 q1 r1 t1 where c1: "inv_mix_single_column [a1, b1, c1, d1] = Returns [p1, q1, r1, t1]"
    "is_byte p1" "is_byte q1" "is_byte r1" "is_byte t1"
    using inv_mix_single_column_returns[OF b(2) b(6) b(10) b(14)] by (elim exE conjE) (rule that)
  obtain p2 q2 r2 t2 where c2: "inv_mix_single_column [a2, b2, c2, d2] = Returns [p2, q2, r2, t2]"
    "is_byte p2" "is_byte q2" "is_byte r2" "is_byte t2"
    using inv_mix_single_column_returns[OF b(3) b(7) b(11) b(15)] by (elim exE conjE) (rule that)
  obtain p3 q3 r3 t3 where c3: "inv_mix_single_column [a3, b3, c3, d3] = Returns [p3, q3, r3, t3]"
    "is_byte p3" "is_byte q3" "is_byte r3" "is_byte t3"
    using inv_mix_single_column_returns[OF b(4) b(8) b(12) b(16)] by (elim exE conjE) (rule that)
  let ?s' = "[[p0, p1, p2, p3], [q0, q1, q2, q3], [r0, r1, r2, r3], [t0, t1, t2, t3]]"
  have "inv_mix_columns s = Returns ?s'"
    unfolding inv_mix_columns_def s by (rule columns_loop_4x4[OF c0(1) c1(1) c2(1) c3(1)])
  moreover have "state_ok ?s'"
    using c0(2-5) c1(2-5) c2(2-5) c3(2-5) by (simp add: state_ok_4x4)
  ultimately show ?thesis by (intro exI conjI)
qed

lemma mix_columns_inverse:
  assumes "state_ok s"
  shows "\<exists>s'. mix_columns s = Returns s' \<and> state_ok s' \<and> inv_mix_columns s' = Returns s"
  using assms by (elim state_okE) (rule mix_columns_inverse_4x4)

lemma inv_mix_columns_returns:
  assumes "state_ok s"
  shows "\<exists>s'. inv_mix_columns s = Returns s' \<and> state_ok s'"
  using assms by (elim state_okE) (rule inv_mix_columns_returns_4x4)

lemma shift_rows_inverse:
  assumes "state_ok s"
  shows "\<exists>s'. shift_rows s = Returns s' \<and> state_ok s' \<and> inv_shift_rows s' = Returns s"
  using assms by (elim state_okE) (simp add: shift_rows_def inv_shift_rows_def item_def state_ok_4x4)

lemma inv_shift_rows_returns:
  assumes "state_ok s"
  shows "\<exists>s'. inv_shift_rows s = Returns s' \<and> state_ok s'"
  using assms by (elim state_okE) (simp add: inv_shift_rows_def item_def state_ok_4x4)

lemma xor_cancel_right: "(a XOR b) XOR b = (a::int)"
  by (simp add: xor.assoc)

lemma add_round_key_inverse:
  assumes "state_ok s" "state_ok k"
  shows "\<exists>s'. add_round_key s k = Returns s' \<and> state_ok s' \<and> add_round_key s' k = Returns s"
  using assms(1) 
  apply (elim state_okE)
  using assms(2)
  apply (elim state_okE)
  apply (simp add: add_round_key_def item_def state_ok_4x4 is_byte_xor xor_cancel_right)
  done

lemma for_each_inverse:
  assumes "\<And>x. P x \<Longrightarrow> \<exists>y. f x = Returns y \<and> Q y \<and> g y = Returns x"
  shows "list_all P xs \<Longrightarrow>
    \<exists>ys. for_each f xs = Returns ys \<and> list_all Q ys \<and> length ys = length xs \<and>
         for_each g ys = Returns xs"
proof (induction xs)
  case Nil
  then show ?case by simp
next
  case (Cons x xs)
  from Cons.prems have "P x" and "list_all P xs" by simp_all
  from assms[OF \<open>P x\<close>] obtain y where y: "f x = Returns y" "Q y" "g y = Returns x" by blast
  from Cons.IH[OF \<open>list_all P xs\<close>] obtain ys where
    ys: "for_each f xs = Returns ys" "list_all Q ys" "length ys = length xs"
        "for_each g ys = Returns xs" by blast
  have "for_each f (x # xs) = Returns (y # ys)" using y ys by simp
  moreover have "for_each g (y # ys) = Returns (x # xs)" using y ys by simp
  ultimately show ?case using y ys by (intro exI[of _ "y # ys"]) simp
qed

lemma for_each_returns:
  assumes "\<And>x. P x \<Longrightarrow> \<exists>y. f x = Returns y \<and> Q y"
  shows "list_all P xs \<Longrightarrow>
    \<exists>ys. for_each f xs = Returns ys \<and> list_all Q ys \<and> length ys = length xs"
proof (induction xs)
  case Nil
  then show ?case by simp
next
  case (Cons x xs)
  from Cons.prems have "P x" and "list_all P xs" by simp_all
  from assms[OF \<open>P x\<close>] obtain y where y: "f x = Returns y" "Q y" by blast
  from Cons.IH[OF \<open>list_all P xs\<close>] obtain ys where
    ys: "for_each f xs = Returns ys" "list_all Q ys" "length ys = length xs" by blast
  have "for_each f (x # xs) = Returns (y # ys)" using y ys by simp
  then show ?case using y ys by (intro exI[of _ "y # ys"]) simp
qed

lemma sbox_tables: "sbox_table_ok"
  unfolding sbox_table_ok_def by code_simp

lemma length_S_BOX: "length S_BOX = 256"
  by (simp add: S_BOX_def)

lemma length_INV_S_BOX: "length INV_S_BOX = 256"
  by (simp add: INV_S_BOX_def)

lemma sbox_byte:
  assumes "is_byte b"
  shows "is_byte (S_BOX ! nat b)" "INV_S_BOX ! nat (S_BOX ! nat b) = b" "is_byte (INV_S_BOX ! nat b)"
proof -
  from assms have "b \<in> set [0..255]" by (simp add: is_byte_def)
  with sbox_tables show "is_byte (S_BOX ! nat b)" "INV_S_BOX ! nat (S_BOX ! nat b) = b"
    "is_byte (INV_S_BOX ! nat b)"
    unfolding sbox_table_ok_def list_all_iff by blast+
qed

lemma substitute_inverse:
  assumes "is_byte b"
  shows "\<exists>v. substitute S_BOX b = Returns v \<and> is_byte v \<and> substitute INV_S_BOX v = Returns b"
  using assms sbox_byte[OF assms]
  by (simp add: substitute_def length_S_BOX length_INV_S_BOX is_byte_def)

lemma substitute_inv_returns:
  assumes "is_byte b"
  shows "\<exists>v. substitute INV_S_BOX b = Returns v \<and> is_byte v"
  using assms sbox_byte(3)[OF assms]
  by (simp add: substitute_def length_INV_S_BOX is_byte_def)

lemma row_sub_inverse:
  assumes "length r = 4 \<and> list_all is_byte r"
  shows "\<exists>r'. for_each (substitute S_BOX) r = Returns r' \<and> (length r' = 4 \<and> list_all is_byte r') \<and>
           for_each (substitute INV_S_BOX) r' = Returns r"
  using for_each_inverse[of is_byte "substitute S_BOX" is_byte "substitute INV_S_BOX" r,
      OF substitute_inverse] assms by auto

lemma row_inv_sub_returns:
  assumes "length r = 4 \<and> list_all is_byte r"
  shows "\<exists>r'. for_each (substitute INV_S_BOX) r = Returns r' \<and> (length r' = 4 \<and> list_all is_byte r')"
  using for_each_returns[of is_byte "substitute INV_S_BOX" is_byte r,
      OF substitute_inv_returns] assms by auto

lemma sub_bytes_inverse:
  assumes "state_ok s"
  shows "\<exists>s'. sub_bytes s = Returns s' \<and> state_ok s' \<and> inv_sub_bytes s' = Returns s"
  using for_each_inverse[of "\<lambda>r. length r = 4 \<and> list_all is_byte r" "for_each (substitute S_BOX)"
      "\<lambda>r. length r = 4 \<and> list_all is_byte r" "for_each (substitute INV_S_BOX)" s,
      OF row_sub_inverse] assms
  by (auto simp: state_ok_def sub_bytes_def inv_sub_bytes_def)

lemma inv_sub_bytes_returns:
  assumes "state_ok s"
  shows "\<exists>s'. inv_sub_bytes s = Returns s' \<and> state_ok s'"
  using for_each_returns[of "\<lambda>r. length r = 4 \<and> list_all is_byte r" "for_each (substitute INV_S_BOX)"
      "\<lambda>r. length r = 4 \<and> list_all is_byte r" s,
      OF row_inv_sub_returns] assms
  by (auto simp: state_ok_def inv_sub_bytes_def)

lemma is_byte_uint: "is_byte (uint (w :: 8 word))"
  using uint_lt2p[of w] by (simp add: is_byte_def)

lemma uint_word_of_byte: "is_byte a \<Longrightarrow> uint (word_of_int a :: 8 word) = a"
  by (simp add: is_byte_def uint_word_of_int take_bit_eq_mod)

lemma bytes_to_state_16:
  "bytes_to_state [x0, x1, x2, x3, x4, x5, x6, x7, x8, x9, x10, x11, x12, x13, x14, x15] =
     Returns [[uint x0, uint x4, uint x8, uint x12], [uint x1, uint x5, uint x9, uint x13],
              [uint x2, uint x6, uint x10, uint x14], [uint x3, uint x7, uint x11, uint x15]]"
  by (simp add: bytes_to_state_def byte_at_def)

lemma state_to_bytes_4x4:
  assumes "state_ok [[a0, a1, a2, a3], [b0, b1, b2, b3], [c0, c1, c2, c3], [d0, d1, d2, d3]]"
  shows "state_to_bytes [[a0, a1, a2, a3], [b0, b1, b2, b3], [c0, c1, c2, c3], [d0, d1, d2, d3]] =
     Returns (map word_of_int [a0, b0, c0, d0, a1, b1, c1, d1, a2, b2, c2, d2, a3, b3, c3, d3])"
  using assms by (simp add: state_to_bytes_def item_def to_bytes_def state_ok_4x4 is_byte_def)

lemma state_ok_round_key_of: "state_ok (round_key_of words r)"
  by (simp add: round_key_of_def state_ok_def is_byte_uint)

lemma key_expansion_returns:
  assumes "length key = 16"
  shows "\<exists>rks. key_expansion key = Returns rks \<and> length rks = 11 \<and> list_all state_ok rks"
proof -
  define words where
    "words = key_expansion_loop [4..<44]
               [take 4 key, take 4 (drop 4 key), take 4 (drop 8 key), take 4 (drop 12 key)]"
  have "key_expansion key = Returns (map (round_key_of words) [0..<11])"
    unfolding key_expansion_def Let_def words_def by (simp only: assms simp_thms if_False)
  moreover have "length (map (round_key_of words) [0..<11]) = 11"
    by simp
  moreover have "list_all state_ok (map (round_key_of words) [0..<11])"
    by (simp only: list_all_iff set_map) (auto simp: state_ok_round_key_of)
  ultimately show ?thesis by (intro exI conjI)
qed

lemma item_round_key:
  assumes "length rks = 11" "list_all state_ok rks" "i < 11"
  shows "\<exists>k. item rks i = Returns k \<and> state_ok k"
  using assms by (simp add: item_def list_all_length)

lemma and_then_assoc: "and_then (and_then m f) g = and_then m (\<lambda>x. and_then (f x) g)"
  by (cases m) simp_all

lemma and_then_Returns: "and_then m Returns = m"
  by (cases m) simp_all

lemma length16E:
  assumes "length (xs :: 'a list) = 16"
  obtains x0 x1 x2 x3 x4 x5 x6 x7 x8 x9 x10 x11 x12 x13 x14 x15 where
    "xs = [x0, x1, x2, x3, x4, x5, x6, x7, x8, x9, x10, x11, x12, x13, x14, x15]"
proof -
  from assms have "\<exists>x0 x1 x2 x3 x4 x5 x6 x7 x8 x9 x10 x11 x12 x13 x14 x15.
    xs = [x0, x1, x2, x3, x4, x5, x6, x7, x8, x9, x10, x11, x12, x13, x14, x15]"
    by (clarsimp simp: length_Suc_conv eval_nat_numeral)
  then show ?thesis by (elim exE) (rule that)
qed

lemma bytes_to_state_inverse:
  assumes "length data = 16"
  shows "\<exists>s. bytes_to_state data = Returns s \<and> state_ok s \<and> state_to_bytes s = Returns data"
  using assms
  by (elim length16E)
     (simp add: bytes_to_state_16 state_to_bytes_4x4 state_ok_4x4 is_byte_uint)

lemma state_to_bytes_inverse:
  assumes "state_ok s"
  shows "\<exists>bs. state_to_bytes s = Returns bs \<and> length bs = 16 \<and> bytes_to_state bs = Returns s"
  using assms
  by (elim state_okE)
     (simp add: state_to_bytes_4x4 state_ok_4x4 bytes_to_state_16 uint_word_of_byte)

lemma sub_shift_inverse:
  assumes "state_ok s"
  shows "\<exists>t. sub_shift s = Returns t \<and> state_ok t \<and> inv_shift_sub t = Returns s"
proof -
  from sub_bytes_inverse[OF assms] obtain s1 where
    s1: "sub_bytes s = Returns s1" "state_ok s1" "inv_sub_bytes s1 = Returns s" by blast
  from shift_rows_inverse[OF s1(2)] obtain t where
    t: "shift_rows s1 = Returns t" "state_ok t" "inv_shift_rows t = Returns s1" by blast
  show ?thesis using s1 t by (simp add: sub_shift_def inv_shift_sub_def)
qed

lemma inv_shift_sub_returns:
  assumes "state_ok s"
  shows "\<exists>t. inv_shift_sub s = Returns t \<and> state_ok t"
proof -
  from inv_shift_rows_returns[OF assms] obtain s1 where
    s1: "inv_shift_rows s = Returns s1" "state_ok s1" by blast
  from inv_sub_bytes_returns[OF s1(2)] obtain t where
    t: "inv_sub_bytes s1 = Returns t" "state_ok t" by blast
  show ?thesis using s1 t by (simp add: inv_shift_sub_def)
qed

lemma encrypt_rounds_step:
  "encrypt_rounds rks (r # rs) s =
     and_then (sub_shift s) (\<lambda>t.
     and_then (mix_columns t) (\<lambda>u.
     and_then (item rks r) (\<lambda>k.
     and_then (add_round_key u k) (encrypt_rounds rks rs))))"
  by (simp add: sub_shift_def and_then_assoc)

lemma decrypt_rounds_step:
  "decrypt_rounds rks (r # rs) t =
     and_then (inv_shift_sub t) (\<lambda>s.
     and_then (item rks r) (\<lambda>k.
     and_then (add_round_key s k) (\<lambda>u.
     and_then (inv_mix_columns u) (decrypt_rounds rks rs))))"
  by (simp add: inv_shift_sub_def and_then_assoc)

lemma decrypt_rounds_append:
  "decrypt_rounds rks (xs @ ys) t = and_then (decrypt_rounds rks xs t) (decrypt_rounds rks ys)"
proof (induction xs arbitrary: t)
  case Nil
  show ?case by simp
next
  case (Cons r xs)
  show ?case
    unfolding append_Cons decrypt_rounds_step and_then_assoc Cons.IH ..
qed

lemma decrypt_rounds_append_fun:
  "decrypt_rounds rks (xs @ ys) = (\<lambda>t. and_then (decrypt_rounds rks xs t) (decrypt_rounds rks ys))"
  by (rule ext) (rule decrypt_rounds_append)

lemma rounds_inverse:
  assumes rks: "length rks = 11" "list_all state_ok rks"
  shows "list_all (\<lambda>r. r < 11) rs \<Longrightarrow> state_ok s \<Longrightarrow>
    \<exists>s'. encrypt_rounds rks rs s = Returns s' \<and> state_ok s' \<and>
         and_then (sub_shift s') (decrypt_rounds rks (rev rs)) = sub_shift s"
proof (induction rs arbitrary: s)
  case Nil
  then show ?case by (simp add: and_then_Returns)
next
  case (Cons r rs)
  from Cons.prems have r: "r < 11" and rs: "list_all (\<lambda>r. r < 11) rs" by simp_all
  from sub_shift_inverse[OF Cons.prems(2)] obtain t where
    t: "sub_shift s = Returns t" "state_ok t" "inv_shift_sub t = Returns s" by blast
  from mix_columns_inverse[OF t(2)] obtain u where
    u: "mix_columns t = Returns u" "state_ok u" "inv_mix_columns u = Returns t" by blast
  from item_round_key[OF rks r] obtain k where
    k: "item rks r = Returns k" "state_ok k" by blast
  from add_round_key_inverse[OF u(2) k(2)] obtain v where
    v: "add_round_key u k = Returns v" "state_ok v" "add_round_key v k = Returns u" by blast
  from Cons.IH[OF rs v(2)] obtain s' where
    s': "encrypt_rounds rks rs v = Returns s'" "state_ok s'"
        "and_then (sub_shift s') (decrypt_rounds rks (rev rs)) = sub_shift v" by blast
  from sub_shift_inverse[OF v(2)] obtain w where
    w: "sub_shift v = Returns w" "state_ok w" "inv_shift_sub w = Returns v" by blast
  have enc: "encrypt_rounds rks (r # rs) s = Returns s'"
    unfolding encrypt_rounds_step by (simp add: t u k v s')
  have "and_then (sub_shift s') (decrypt_rounds rks (rev (r # rs))) =
        and_then (and_then (sub_shift s') (decrypt_rounds rks (rev rs))) (decrypt_rounds rks [r])"
    by (simp add: decrypt_rounds_append_fun and_then_assoc)
  also have "\<dots> = decrypt_rounds rks [r] w"
    by (simp only: s'(3) w(1) and_then.simps)
  also have "\<dots> = Returns t"
    unfolding decrypt_rounds_step by (simp add: w k v u)
  finally show ?case using enc s'(2) t(1) by simp
qed

lemma decrypt_rounds_returns:
  assumes rks: "length rks = 11" "list_all state_ok rks"
  shows "list_all (\<lambda>r. r < 11) rs \<Longrightarrow> state_ok t \<Longrightarrow>
    \<exists>t'. decrypt_rounds rks rs t = Returns t' \<and> state_ok t'"
proof (induction rs arbitrary: t)
  case Nil
  then show ?case by simp
next
  case (Cons r rs)
  from Cons.prems have r: "r < 11" and rs: "list_all (\<lambda>r. r < 11) rs" by simp_all
  from inv_shift_sub_returns[OF Cons.prems(2)] obtain s where
    s: "inv_shift_sub t = Returns s" "state_ok s" by blast
  from item_round_key[OF rks r] obtain k where
    k: "item rks r = Returns k" "state_ok k" by blast
  from add_round_key_inverse[OF s(2) k(2)] obtain u where
    u: "add_round_key s k = Returns u" "state_ok u" by blast
  from inv_mix_columns_returns[OF u(2)] obtain v where
    v: "inv_mix_columns u = Returns v" "state_ok v" by blast
  from Cons.IH[OF rs v(2)] obtain t' where
    t': "decrypt_rounds rks rs v = Returns t'" "state_ok t'" by blast
  show ?case unfolding decrypt_rounds_step using s k u v t' by simp
qed

lemma encrypt_block_alt:
  "encrypt_block plaintext key =
     and_then (key_expansion key) (\<lambda>rks.
     and_then (bytes_to_state plaintext) (\<lambda>s.
     and_then (item rks 0) (\<lambda>k.
     and_then (add_round_key s k) (\<lambda>s.
     and_then (encrypt_rounds rks [1..<10] s) (\<lambda>s.
     and_then (sub_shift s) (\<lambda>t.
     and_then (item rks 10) (\<lambda>k.
     and_then (add_round_key t k) state_to_bytes)))))))"
  by (simp only: encrypt_block_def Let_def sub_shift_def and_then_assoc)

lemma decrypt_block_alt:
  "decrypt_block ciphertext key =
     and_then (key_expansion key) (\<lambda>rks.
     and_then (bytes_to_state ciphertext) (\<lambda>s.
     and_then (item rks 10) (\<lambda>k.
     and_then (add_round_key s k) (\<lambda>t.
     and_then (decrypt_rounds rks (rev [1..<10]) t) (\<lambda>t.
     and_then (inv_shift_sub t) (\<lambda>s.
     and_then (item rks 0) (\<lambda>k.
     and_then (add_round_key s k) state_to_bytes)))))))"
  by (simp only: decrypt_block_def Let_def inv_shift_sub_def and_then_assoc)

lemma round_numbers: "list_all (\<lambda>r. r < 11) [1..<10]" "list_all (\<lambda>r. r < 11) (rev [1..<10])"
  by (simp_all add: list_all_iff)

lemma block_roundtrip:
  assumes "length plaintext = 16" "length key = 16"
  shows "\<exists>c. encrypt_block plaintext key = Returns c \<and> length c = 16 \<and>
             decrypt_block c key = Returns plaintext"
proof -
  from key_expansion_returns[OF assms(2)] obtain rks where
    rks: "key_expansion key = Returns rks" "length rks = 11" "list_all state_ok rks" by blast
  from bytes_to_state_inverse[OF assms(1)] obtain s0 where
    s0: "bytes_to_state plaintext = Returns s0" "state_ok s0"
        "state_to_bytes s0 = Returns plaintext" by blast
  from item_round_key[OF rks(2,3), of 0] obtain k0 where
    k0: "item rks 0 = Returns k0" "state_ok k0" by auto
  from item_round_key[OF rks(2,3), of 10] obtain k10 where
    k10: "item rks 10 = Returns k10" "state_ok k10" by auto
  from add_round_key_inverse[OF s0(2) k0(2)] obtain s1 where
    s1: "add_round_key s0 k0 = Returns s1" "state_ok s1" "add_round_key s1 k0 = Returns s0"
    by blast
  from rounds_inverse[OF rks(2,3) round_numbers(1) s1(2)] obtain s9 where
    s9: "encrypt_rounds rks [1..<10] s1 = Returns s9" "state_ok s9"
        "and_then (sub_shift s9) (decrypt_rounds rks (rev [1..<10])) = sub_shift s1" by blast
  from sub_shift_inverse[OF s9(2)] obtain t9 where
    t9: "sub_shift s9 = Returns t9" "state_ok t9" by blast
  from sub_shift_inverse[OF s1(2)] obtain t1 where
    t1: "sub_shift s1 = Returns t1" "state_ok t1" "inv_shift_sub t1 = Returns s1" by blast
  from s9(3) have dec: "decrypt_rounds rks (rev [1..<10]) t9 = Returns t1"
    by (simp only: t9(1) t1(1) and_then.simps)
  from add_round_key_inverse[OF t9(2) k10(2)] obtain cs where
    cs: "add_round_key t9 k10 = Returns cs" "state_ok cs" "add_round_key cs k10 = Returns t9"
    by blast
  from state_to_bytes_inverse[OF cs(2)] obtain c where
    c: "state_to_bytes cs = Returns c" "length c = 16" "bytes_to_state c = Returns cs" by blast
  have "encrypt_block plaintext key = Returns c"
    unfolding encrypt_block_alt
    by (simp only: rks(1) s0(1) k0(1) s1(1) s9(1) t9(1) k10(1) cs(1) c(1) and_then.simps)
  moreover have "decrypt_block c key = Returns plaintext"
    unfolding decrypt_block_alt
    by (simp only: rks(1) c(3) k10(1) cs(3) dec t1(3) k0(1) s1(3) s0(3) and_then.simps)
  ultimately show ?thesis using c(2) by (intro exI conjI)
qed

lemma decrypt_block_returns:
  assumes "length ciphertext = 16" "length key = 16"
  shows "\<exists>p. decrypt_block ciphertext key = Returns p \<and> length p = 16"
proof -
  from key_expansion_returns[OF assms(2)] obtain rks where
    rks: "key_expansion key = Returns rks" "length rks = 11" "list_all state_ok rks" by blast
  from bytes_to_state_inverse[OF assms(1)] obtain s0 where
    s0: "bytes_to_state ciphertext = Returns s0" "state_ok s0" by blast
  from item_round_key[OF rks(2,3), of 0] obtain k0 where
    k0: "item rks 0 = Returns k0" "state_ok k0" by auto
  from item_round_key[OF rks(2,3), of 10] obtain k10 where
    k10: "item rks 10 = Returns k10" "state_ok k10" by auto
  from add_round_key_inverse[OF s0(2) k10(2)] obtain t where
    t: "add_round_key s0 k10 = Returns t" "state_ok t" by blast
  from decrypt_rounds_returns[OF rks(2,3) round_numbers(2) t(2)] obtain t' where
    t': "decrypt_rounds rks (rev [1..<10]) t = Returns t'" "state_ok t'" by blast
  from inv_shift_sub_returns[OF t'(2)] obtain s where
    s: "inv_shift_sub t' = Returns s" "state_ok s" by blast
  from add_round_key_inverse[OF s(2) k0(2)] obtain ps where
    ps: "add_round_key s k0 = Returns ps" "state_ok ps" by blast
  from state_to_bytes_inverse[OF ps(2)] obtain p where
    p: "state_to_bytes ps = Returns p" "length p = 16" by blast
  have "decrypt_block ciphertext key = Returns p"
    unfolding decrypt_block_alt
    by (simp only: rks(1) s0(1) k10(1) t(1) t'(1) s(1) k0(1) ps(1) p(1) and_then.simps)
  then show ?thesis using p(2) by (intro exI conjI)
qed

lemma block_offsets_16: "block_offsets (16 * m) 16 = map (\<lambda>k. k * 16) [0..<m]"
  by (simp add: block_offsets_def)

lemma blocks_loop_append:
  "blocks_loop f input key (xs @ ys) out =
     and_then (blocks_loop f input key xs out) (blocks_loop f input key ys)"
proof (induction xs arbitrary: out)
  case Nil
  show ?case by simp
next
  case (Cons i xs)
  show ?case by (simp add: Cons.IH and_then_assoc)
qed

lemma blocks_loop_prefix:
  "list_all (\<lambda>i. i + 16 \<le> length xs) offs \<Longrightarrow>
     blocks_loop f (xs @ ys) key offs out = blocks_loop f xs key offs out"
proof (induction offs arbitrary: out)
  case Nil
  show ?case by simp
next
  case (Cons i offs)
  then show ?case by simp
qed

lemma blocks_loop_inverse:
  assumes fg: "\<And>b. length b = 16 \<Longrightarrow> \<exists>c. f b key = Returns c \<and> length c = 16 \<and> g c key = Returns b"
  shows "16 * m \<le> length input \<Longrightarrow>
    \<exists>out. blocks_loop f input key (map (\<lambda>k. k * 16) [0..<m]) [] = Returns out \<and>
          length out = 16 * m \<and>
          blocks_loop g out key (map (\<lambda>k. k * 16) [0..<m]) [] = Returns (take (16 * m) input)"
proof (induction m)
  case 0
  show ?case by simp
next
  case (Suc m)
  from Suc.prems have le: "16 * m \<le> length input" by simp
  from Suc.IH[OF le] obtain out where
    out: "blocks_loop f input key (map (\<lambda>k. k * 16) [0..<m]) [] = Returns out"
         "length out = 16 * m"
         "blocks_loop g out key (map (\<lambda>k. k * 16) [0..<m]) [] = Returns (take (16 * m) input)"
    by blast
  let ?b = "take 16 (drop (m * 16) input)"
  from Suc.prems have lb: "length ?b = 16" by simp
  from fg[OF lb] obtain c where
    c: "f ?b key = Returns c" "length c = 16" "g c key = Returns ?b" by blast
  have e: "16 * Suc m = m * 16 + 16" by simp
  have enc: "blocks_loop f input key (map (\<lambda>k. k * 16) [0..<Suc m]) [] = Returns (out @ c)"
    by (simp add: blocks_loop_append out(1) c(1))
  have reads: "list_all (\<lambda>i. i + 16 \<le> length out) (map (\<lambda>k. k * 16) [0..<m])"
    by (auto simp: list_all_iff out(2))
  have "blocks_loop g (out @ c) key (map (\<lambda>k. k * 16) [0..<Suc m]) [] =
        and_then (blocks_loop g out key (map (\<lambda>k. k * 16) [0..<m]) [])
          (blocks_loop g (out @ c) key [m * 16])"
    by (simp add: blocks_loop_append blocks_loop_prefix[OF reads])
  also have "\<dots> = Returns (take (16 * m) input @ ?b)"
    by (simp add: out c)
  also have "take (16 * m) input @ ?b = take (16 * Suc m) input"
    unfolding e by (simp add: take_add mult.commute[of 16 m])
  finally have dec: "blocks_loop g (out @ c) key (map (\<lambda>k. k * 16) [0..<Suc m]) [] =
      Returns (take (16 * Suc m) input)" .
  from enc dec out(2) c(2) show ?case
    by (intro exI[of _ "out @ c"]) simp
qed

lemma blocks_loop_returns:
  assumes f: "\<And>b. length b = 16 \<Longrightarrow> \<exists>c. f b key = Returns c \<and> length c = 16"
  shows "16 * m \<le> length input \<Longrightarrow>
    \<exists>out. blocks_loop f input key (map (\<lambda>k. k * 16) [0..<m]) [] = Returns out \<and>
          length out = 16 * m"
proof (induction m)
  case 0
  show ?case by simp
next
  case (Suc m)
  from Suc.prems have le: "16 * m \<le> length input" by simp
  from Suc.IH[OF le] obtain out where
    out: "blocks_loop f input key (map (\<lambda>k. k * 16) [0..<m]) [] = Returns out"
         "length out = 16 * m" by blast
  let ?b = "take 16 (drop (m * 16) input)"
  from Suc.prems have lb: "length ?b = 16" by simp
  from f[OF lb] obtain c where c: "f ?b key = Returns c" "length c = 16" by blast
  have "blocks_loop f input key (map (\<lambda>k. k * 16) [0..<Suc m]) [] = Returns (out @ c)"
    by (simp add: blocks_loop_append out(1) c(1))
  with out(2) c(2) show ?case by (intro exI[of _ "out @ c"]) simp
qed

lemma decrypt_alt:
  "decrypt ciphertext key =
     and_then (decrypted_buffer ciphertext key) (\<lambda>buf.
       if buf = [] then Raises IndexError
       else if padding_ok buf then Returns (take (length buf - unat (last buf)) buf)
       else Returns buf)"
  unfolding decrypt_def decrypted_buffer_def padding_ok_def Let_def
  by (rule arg_cong[where f = "and_then _"]) (rule ext, simp)

lemma encrypt_alt:
  "encrypt plaintext key =
     blocks_loop encrypt_block (pkcs7_padded plaintext) key
       (block_offsets (length (pkcs7_padded plaintext)) 16) []"
  by (simp only: encrypt_def Let_def pkcs7_padded_def pad_length_def)

lemma pad_length_bounds: "0 < pad_length n" "pad_length n \<le> 16"
  by (simp_all add: pad_length_def)

lemma length_pkcs7_padded: "length (pkcs7_padded m) = 16 * (length m div 16 + 1)"
  unfolding pkcs7_padded_def pad_length_def by simp presburger

lemma encrypt_decrypted_buffer:
  assumes "length key = 16"
  shows "\<exists>c. encrypt m key = Returns c \<and> length c = length m + pad_length (length m) \<and>
             decrypted_buffer c key = Returns (pkcs7_padded m)"
proof -
  let ?k = "length m div 16 + 1"
  have len: "length (pkcs7_padded m) = 16 * ?k" by (rule length_pkcs7_padded)
  have fg: "\<And>b. length b = 16 \<Longrightarrow>
      \<exists>c. encrypt_block b key = Returns c \<and> length c = 16 \<and> decrypt_block c key = Returns b"
    by (rule block_roundtrip[OF _ assms])
  from blocks_loop_inverse[of encrypt_block key decrypt_block ?k "pkcs7_padded m", OF fg]
  obtain c where
    c: "blocks_loop encrypt_block (pkcs7_padded m) key (map (\<lambda>k. k * 16) [0..<?k]) [] = Returns c"
       "length c = 16 * ?k"
       "blocks_loop decrypt_block c key (map (\<lambda>k. k * 16) [0..<?k]) [] =
          Returns (take (16 * ?k) (pkcs7_padded m))"
    using len by auto
  have "encrypt m key = Returns c"
    unfolding encrypt_alt len block_offsets_16 by (rule c(1))
  moreover have "length c = length m + pad_length (length m)"
    using c(2) len by (simp add: pkcs7_padded_def)
  moreover have "decrypted_buffer c key = Returns (pkcs7_padded m)"
    unfolding decrypted_buffer_def c(2) block_offsets_16 using c(3) len by simp
  ultimately show ?thesis by (intro exI conjI)
qed

lemma padding_ok_pkcs7_padded: "padding_ok (pkcs7_padded m)"
proof -
  let ?n = "pad_length (length m)"
  have n: "0 < ?n" "?n \<le> 16" by (rule pad_length_bounds)+
  then have u: "unat (of_nat ?n :: 8 word) = ?n"
    by (simp add: unat_of_nat)
  from n have "last (pkcs7_padded m) = of_nat ?n"
    by (simp add: pkcs7_padded_def)
  then show ?thesis using n u
    by (simp add: padding_ok_def Let_def pkcs7_padded_def list_all_iff)
qed

lemma strip_pkcs7_padded:
  "take (length (pkcs7_padded m) - unat (last (pkcs7_padded m))) (pkcs7_padded m) = m"
proof -
  let ?n = "pad_length (length m)"
  have n: "0 < ?n" "?n \<le> 16" by (rule pad_length_bounds)+
  then have u: "unat (of_nat ?n :: 8 word) = ?n"
    by (simp add: unat_of_nat)
  from n have "last (pkcs7_padded m) = of_nat ?n"
    by (simp add: pkcs7_padded_def)
  then show ?thesis using u by (simp add: pkcs7_padded_def)
qed

lemma pkcs7_padded_nonempty: "pkcs7_padded m \<noteq> []"
  using pad_length_bounds(1)[of "length m"] by (simp add: pkcs7_padded_def)

lemma message_roundtrip:
  assumes "length key = 16"
  shows "\<exists>c. encrypt m key = Returns c \<and> decrypt c key = Returns m"
proof -
  from encrypt_decrypted_buffer[OF assms, of m] obtain c where
    c: "encrypt m key = Returns c" "decrypted_buffer c key = Returns (pkcs7_padded m)" by blast
  have "decrypt c key = Returns m"
    unfolding decrypt_alt c(2)
    by (simp add: pkcs7_padded_nonempty padding_ok_pkcs7_padded strip_pkcs7_padded)
  with c(1) show ?thesis by blast
qed

lemma decrypted_buffer_returns:
  assumes "length ciphertext mod 16 = 0" "length key = 16"
  shows "\<exists>buf. decrypted_buffer ciphertext key = Returns buf \<and> length buf = length ciphertext"
proof -
  from assms(1) obtain k where k: "length ciphertext = 16 * k" by auto
  have f: "\<And>b. length b = 16 \<Longrightarrow> \<exists>c. decrypt_block b key = Returns c \<and> length c = 16"
    by (rule decrypt_block_returns[OF _ assms(2)])
  from blocks_loop_returns[of decrypt_block key k ciphertext, OF f] k
  show ?thesis unfolding decrypted_buffer_def k block_offsets_16 by simp
qed

lemma fips_encrypt_block: "encrypt_block test_plaintext test_key = Returns expected_ciphertext"
  by code_simp

lemma test_lengths:
  "length test_plaintext = 16" "length test_key = 16" "length expected_ciphertext = 16"
  by (simp_all add: test_plaintext_def test_key_def expected_ciphertext_def)

lemma fips_decrypt_block: "decrypt_block expected_ciphertext test_key = Returns test_plaintext"
  using block_roundtrip[OF test_lengths(1,2)] by (auto simp: fips_encrypt_block)

lemma pkcs7_invalid_iff: "pkcs7_invalid buf = (\<not> padding_ok buf)"
  by (auto simp: pkcs7_invalid_def padding_ok_def Let_def)

lemma fips_decrypted_buffer:
  "decrypted_buffer expected_ciphertext test_key = Returns test_plaintext"
proof -
  have "block_offsets (length expected_ciphertext) 16 = [0]"
    by (simp add: test_lengths block_offsets_def)
  moreover have "take 16 (drop 0 expected_ciphertext) = expected_ciphertext"
    by (simp add: test_lengths)
  ultimately show ?thesis
    by (simp add: decrypted_buffer_def fips_decrypt_block)
qed

lemma fips_trailer_invalid: "pkcs7_invalid test_plaintext"
  by (simp add: pkcs7_invalid_def test_plaintext_def)

lemma decrypt_returns:
  assumes "ciphertext \<noteq> []" "length ciphertext mod 16 = 0" "length key = 16"
  shows "\<exists>buf. decrypted_buffer ciphertext key = Returns buf \<and> buf \<noteq> [] \<and>
     decrypt ciphertext key =
       Returns (if padding_ok buf then take (length buf - unat (last buf)) buf else buf)"
proof -
  from decrypted_buffer_returns[OF assms(2,3)] obtain buf where
    buf: "decrypted_buffer ciphertext key = Returns buf" "length buf = length ciphertext" by blast
  from buf(2) assms(1) have ne: "buf \<noteq> []" by auto
  have "decrypt ciphertext key =
      Returns (if padding_ok buf then take (length buf - unat (last buf)) buf else buf)"
    unfolding decrypt_alt buf(1) using ne by simp
  with buf(1) ne show ?thesis by blast
qed

lemma encrypt_block_bad_key:
  "length key \<noteq> 16 \<Longrightarrow> encrypt_block plaintext key = Raises InvalidKeyLength"
  unfolding encrypt_block_alt by (simp add: key_expansion_def)

lemma bytes_to_state_short: "length data < 16 \<Longrightarrow> bytes_to_state data = Raises IndexError"
  by (simp add: bytes_to_state_def byte_at_def)

lemma bytes_to_state_take:
  "16 \<le> length data \<Longrightarrow> bytes_to_state (take 16 data) = bytes_to_state data"
  by (auto simp: bytes_to_state_def byte_at_def)

lemma encrypt_block_short:
  assumes "length key = 16" "length plaintext < 16"
  shows "encrypt_block plaintext key = Raises IndexError"
proof -
  from key_expansion_returns[OF assms(1)] obtain rks where
    "key_expansion key = Returns rks" by blast
  then show ?thesis
    unfolding encrypt_block_alt by (simp add: bytes_to_state_short[OF assms(2)])
qed

lemma encrypt_block_take:
  "16 \<le> length plaintext \<Longrightarrow> encrypt_block plaintext key = encrypt_block (take 16 plaintext) key"
  unfolding encrypt_block_alt by (simp only: bytes_to_state_take)

section \<open>The claims\<close>

subsection \<open>Empty ciphertext\<close>

text \<open>
  C9: decrypt applied to an empty ciphertext does not return a value. The block loop runs
  zero times, so no key expansion happens and the buffer is empty; reading its last byte
  (\<open>plaintext[-1]\<close>) raises \<open>IndexError\<close>, whatever the key is.
\<close>

theorem decrypt_empty_raises: "decrypt [] key = Raises IndexError"
  by (simp add: decrypt_def block_offsets_def)

subsection \<open>MixColumns and its inverse\<close>

text \<open>
  C7: for every 4x4 state S of bytes, inv_mix_columns(mix_columns(S)) = S: mix_columns
  returns a state, and inv_mix_columns applied to it returns S.
\<close>

theorem inv_mix_columns_mix_columns:
  "state_ok S \<Longrightarrow> and_then (mix_columns S) inv_mix_columns = Returns S"
proof -
  assume "state_ok S"
  from mix_columns_inverse[OF this] obtain S' where
    "mix_columns S = Returns S'" "inv_mix_columns S' = Returns S" by blast
  then show ?thesis by simp
qed

theorem inv_mix_columns_mix_columns_witness:
  "state_ok test_state \<and> and_then (mix_columns test_state) inv_mix_columns = Returns test_state"
proof -
  have ok: "state_ok test_state"
    by (simp add: test_state_def state_ok_def is_byte_def)
  from inv_mix_columns_mix_columns[OF ok] ok show ?thesis by simp
qed

subsection \<open>The byte-range invariant of the transforms\<close>

text \<open>
  C10: for every 4x4 input state whose entries all lie in 0..255 (and, for add_round_key,
  every such round key), add_round_key, shift_rows, inv_shift_rows, mix_columns and
  inv_mix_columns each return a state that is 4x4 with every entry in 0..255.
\<close>

theorem transforms_preserve_bytes:
  "state_ok s \<Longrightarrow> state_ok k \<Longrightarrow>
     (\<exists>s'. add_round_key s k = Returns s' \<and> state_ok s') \<and>
     (\<exists>s'. shift_rows s = Returns s' \<and> state_ok s') \<and>
     (\<exists>s'. inv_shift_rows s = Returns s' \<and> state_ok s') \<and>
     (\<exists>s'. mix_columns s = Returns s' \<and> state_ok s') \<and>
     (\<exists>s'. inv_mix_columns s = Returns s' \<and> state_ok s')"
proof -
  assume s: "state_ok s" and k: "state_ok k"
  have "\<exists>s'. add_round_key s k = Returns s' \<and> state_ok s'"
    using add_round_key_inverse[OF s k] by blast
  moreover have "\<exists>s'. shift_rows s = Returns s' \<and> state_ok s'"
    using shift_rows_inverse[OF s] by blast
  moreover have "\<exists>s'. inv_shift_rows s = Returns s' \<and> state_ok s'"
    by (rule inv_shift_rows_returns[OF s])
  moreover have "\<exists>s'. mix_columns s = Returns s' \<and> state_ok s'"
    using mix_columns_inverse[OF s] by blast
  moreover have "\<exists>s'. inv_mix_columns s = Returns s' \<and> state_ok s'"
    by (rule inv_mix_columns_returns[OF s])
  ultimately show ?thesis by (intro conjI)
qed

theorem transforms_preserve_bytes_witness:
  "state_ok test_state \<and> state_ok test_round_key \<and>
     (\<exists>s'. add_round_key test_state test_round_key = Returns s' \<and> state_ok s') \<and>
     (\<exists>s'. shift_rows test_state = Returns s' \<and> state_ok s') \<and>
     (\<exists>s'. inv_shift_rows test_state = Returns s' \<and> state_ok s') \<and>
     (\<exists>s'. mix_columns test_state = Returns s' \<and> state_ok s') \<and>
     (\<exists>s'. inv_mix_columns test_state = Returns s' \<and> state_ok s')"
proof -
  have s: "state_ok test_state"
    by (simp add: test_state_def state_ok_def is_byte_def)
  have k: "state_ok test_round_key"
    by (simp add: test_round_key_def state_ok_def is_byte_def)
  from transforms_preserve_bytes[OF s k] s k show ?thesis by simp
qed

subsection \<open>Block round trip\<close>

text \<open>
  C2: for every 16-byte block B and every 16-byte key K,
  decrypt_block(encrypt_block(B, K), K) = B: encrypt_block returns a ciphertext block and
  decrypt_block applied to it under the same key returns B.
\<close>

theorem decrypt_block_encrypt_block:
  "length B = 16 \<Longrightarrow> length K = 16 \<Longrightarrow>
     and_then (encrypt_block B K) (\<lambda>C. decrypt_block C K) = Returns B"
proof -
  assume "length B = 16" "length K = 16"
  from block_roundtrip[OF this] obtain C where
    "encrypt_block B K = Returns C" "decrypt_block C K = Returns B" by blast
  then show ?thesis by simp
qed

theorem decrypt_block_encrypt_block_witness:
  "length test_plaintext = 16 \<and> length test_key = 16 \<and>
     and_then (encrypt_block test_plaintext test_key) (\<lambda>C. decrypt_block C test_key) =
       Returns test_plaintext"
proof -
  have b: "length test_plaintext = 16" by (simp add: test_plaintext_def)
  have k: "length test_key = 16" by (simp add: test_key_def)
  from decrypt_block_encrypt_block[OF b k] b k show ?thesis by (intro conjI)
qed

subsection \<open>The FIPS-197 vector\<close>

text \<open>
  C3: encrypt_block applied to the plaintext 32 43 f6 a8 88 5a 30 8d 31 31 98 a2 e0 37 07 34
  under the key 2b 7e 15 16 28 ae d2 a6 ab f7 15 88 09 cf 4f 3c returns the ciphertext
  39 25 84 1d 02 dc 09 fb dc 11 85 97 19 6a 0b 32, and decrypt_block applied to that
  ciphertext under the same key returns that plaintext.
\<close>

theorem fips_197_vector:
  "encrypt_block
     [0x32, 0x43, 0xf6, 0xa8, 0x88, 0x5a, 0x30, 0x8d, 0x31, 0x31, 0x98, 0xa2, 0xe0, 0x37, 0x07, 0x34]
     [0x2b, 0x7e, 0x15, 0x16, 0x28, 0xae, 0xd2, 0xa6, 0xab, 0xf7, 0x15, 0x88, 0x09, 0xcf, 0x4f, 0x3c]
   = Returns
     [0x39, 0x25, 0x84, 0x1d, 0x02, 0xdc, 0x09, 0xfb, 0xdc, 0x11, 0x85, 0x97, 0x19, 0x6a, 0x0b, 0x32]
   \<and>
   decrypt_block
     [0x39, 0x25, 0x84, 0x1d, 0x02, 0xdc, 0x09, 0xfb, 0xdc, 0x11, 0x85, 0x97, 0x19, 0x6a, 0x0b, 0x32]
     [0x2b, 0x7e, 0x15, 0x16, 0x28, 0xae, 0xd2, 0xa6, 0xab, 0xf7, 0x15, 0x88, 0x09, 0xcf, 0x4f, 0x3c]
   = Returns
     [0x32, 0x43, 0xf6, 0xa8, 0x88, 0x5a, 0x30, 0x8d, 0x31, 0x31, 0x98, 0xa2, 0xe0, 0x37, 0x07, 0x34]"
  using fips_encrypt_block fips_decrypt_block
  unfolding test_plaintext_def test_key_def expected_ciphertext_def
  by (intro conjI)

subsection \<open>Message round trip\<close>

text \<open>
  C1: for every message M (of any length, the empty one included) and every 16-byte key K,
  decrypt(encrypt(M, K), K) = M: encrypt returns a ciphertext and decrypt applied to it
  under the same key returns M.
\<close>

theorem decrypt_encrypt:
  "length K = 16 \<Longrightarrow> and_then (encrypt M K) (\<lambda>C. decrypt C K) = Returns M"
proof -
  assume "length K = 16"
  from message_roundtrip[OF this, of M] obtain C where
    "encrypt M K = Returns C" "decrypt C K = Returns M" by blast
  then show ?thesis by simp
qed

theorem decrypt_encrypt_witness:
  "length test_key = 16 \<and>
   and_then (encrypt [] test_key) (\<lambda>C. decrypt C test_key) = Returns [] \<and>
   and_then (encrypt test_plaintext test_key) (\<lambda>C. decrypt C test_key) = Returns test_plaintext"
  using decrypt_encrypt[OF test_lengths(2), of "[]"]
        decrypt_encrypt[OF test_lengths(2), of test_plaintext] test_lengths(2)
  by (intro conjI)

subsection \<open>Length of the ciphertext and the padding\<close>

text \<open>
  C6: for every plaintext M and 16-byte key K, encrypt returns a ciphertext whose length is
  a positive multiple of 16 and equals len(M) + n with n = 16 - (len(M) mod 16); what was
  encrypted is M followed by n bytes of value n (decrypting the blocks gives it back), and
  when len(M) is already a multiple of 16 a full block of 16 bytes of value 16 is appended.
\<close>

theorem encrypt_length_and_padding:
  "length K = 16 \<Longrightarrow>
     \<exists>C. encrypt M K = Returns C \<and>
         length C = length M + (16 - length M mod 16) \<and>
         0 < length C \<and> length C mod 16 = 0 \<and>
         decrypted_buffer C K =
           Returns (M @ replicate (16 - length M mod 16) (of_nat (16 - length M mod 16))) \<and>
         (length M mod 16 = 0 \<longrightarrow>
            length C = length M + 16 \<and> decrypted_buffer C K = Returns (M @ replicate 16 16))"
proof -
  assume "length K = 16"
  from encrypt_decrypted_buffer[OF this, of M] obtain C where
    C: "encrypt M K = Returns C" "length C = length M + pad_length (length M)"
       "decrypted_buffer C K = Returns (pkcs7_padded M)" by blast
  have len: "length C = length M + (16 - length M mod 16)"
    using C(2) by (simp add: pad_length_def)
  have pos: "0 < length C" using len by simp
  have mult: "length C mod 16 = 0" unfolding len by presburger
  have buf: "decrypted_buffer C K =
      Returns (M @ replicate (16 - length M mod 16) (of_nat (16 - length M mod 16)))"
    using C(3) by (simp add: pkcs7_padded_def pad_length_def)
  have full: "length M mod 16 = 0 \<longrightarrow>
      length C = length M + 16 \<and> decrypted_buffer C K = Returns (M @ replicate 16 16)"
    using len buf by simp
  from C(1) len pos mult buf full show ?thesis by (intro exI conjI)
qed

theorem encrypt_length_and_padding_witness:
  "length test_key = 16 \<and> length test_plaintext mod 16 = 0 \<and>
     (\<exists>C. encrypt test_plaintext test_key = Returns C \<and> length C = 32 \<and>
          decrypted_buffer C test_key = Returns (test_plaintext @ replicate 16 16))"
  using encrypt_length_and_padding[OF test_lengths(2), of test_plaintext] test_lengths
  by auto

subsection \<open>Malformed padding\<close>

text \<open>
  C5: for every non-empty ciphertext whose length is a multiple of 16 (and a 16-byte key),
  the blocks decrypt to a buffer, and when the buffer's trailing byte n fails PKCS7
  validation (n = 0, or n > 16, or the last n bytes are not all equal to n), decrypt
  returns the whole buffer unmodified and signals no error.
\<close>

theorem decrypt_malformed_padding_passes_through:
  "ciphertext \<noteq> [] \<Longrightarrow> length ciphertext mod 16 = 0 \<Longrightarrow> length key = 16 \<Longrightarrow>
     \<exists>buf. decrypted_buffer ciphertext key = Returns buf \<and>
           (pkcs7_invalid buf \<longrightarrow> decrypt ciphertext key = Returns buf)"
proof -
  assume "ciphertext \<noteq> []" "length ciphertext mod 16 = 0" "length key = 16"
  from decrypt_returns[OF this] obtain buf where
    buf: "decrypted_buffer ciphertext key = Returns buf"
         "decrypt ciphertext key =
            Returns (if padding_ok buf then take (length buf - unat (last buf)) buf else buf)"
    by blast
  from buf(2) have "pkcs7_invalid buf \<longrightarrow> decrypt ciphertext key = Returns buf"
    by (simp add: pkcs7_invalid_iff)
  with buf(1) show ?thesis by blast
qed

theorem decrypt_malformed_padding_passes_through_witness:
  "expected_ciphertext \<noteq> [] \<and> length expected_ciphertext mod 16 = 0 \<and> length test_key = 16 \<and>
   pkcs7_invalid test_plaintext \<and>
   decrypt expected_ciphertext test_key = Returns test_plaintext"
proof -
  have ne: "expected_ciphertext \<noteq> []" by (simp add: expected_ciphertext_def)
  have m: "length expected_ciphertext mod 16 = 0" by (simp add: test_lengths)
  from decrypt_malformed_padding_passes_through[OF ne m test_lengths(2)]
  have "decrypt expected_ciphertext test_key = Returns test_plaintext"
    by (simp add: fips_decrypted_buffer fips_trailer_invalid)
  with ne m test_lengths(2) fips_trailer_invalid show ?thesis by (intro conjI)
qed

text \<open>
  C4 (as stated): decrypt detects a malformed PKCS7 trailer and reports an InvalidPadding
  error. It does not: the FIPS-197 ciphertext decrypts to a buffer ending in 0x34 = 52,
  which is more than 16, and decrypt returns that buffer.
\<close>

theorem decrypt_reports_no_padding_error:
  "decrypted_buffer expected_ciphertext test_key = Returns test_plaintext \<and>
   unat (last test_plaintext) = 52 \<and> pkcs7_invalid test_plaintext \<and>
   decrypt expected_ciphertext test_key \<noteq> Raises ValueError \<and>
   decrypt expected_ciphertext test_key \<noteq> Raises IndexError \<and>
   decrypt expected_ciphertext test_key \<noteq> Raises InvalidKeyLength \<and>
   decrypt expected_ciphertext test_key = Returns test_plaintext"
proof -
  have ne: "test_plaintext \<noteq> []" by (simp add: test_plaintext_def)
  have d: "decrypt expected_ciphertext test_key = Returns test_plaintext"
    unfolding decrypt_alt fips_decrypted_buffer
    using ne fips_trailer_invalid by (simp add: pkcs7_invalid_iff)
  have l: "unat (last test_plaintext) = 52" by (simp add: test_plaintext_def)
  from d l fips_decrypted_buffer fips_trailer_invalid show ?thesis by simp
qed

text \<open>
  C4 (amended): decrypt checks the PKCS7 trailer but reports no error for a malformed one:
  for every non-empty ciphertext whose length is a multiple of 16 and every 16-byte key it
  returns a value, the buffer without its padding when the trailer is well-formed and the
  whole buffer otherwise.
\<close>

theorem decrypt_always_returns:
  "ciphertext \<noteq> [] \<Longrightarrow> length ciphertext mod 16 = 0 \<Longrightarrow> length key = 16 \<Longrightarrow>
     \<exists>buf. decrypted_buffer ciphertext key = Returns buf \<and>
       decrypt ciphertext key =
         Returns (if pkcs7_invalid buf then buf else take (length buf - unat (last buf)) buf)"
proof -
  assume "ciphertext \<noteq> []" "length ciphertext mod 16 = 0" "length key = 16"
  from decrypt_returns[OF this] obtain buf where
    buf: "decrypted_buffer ciphertext key = Returns buf"
         "decrypt ciphertext key =
            Returns (if padding_ok buf then take (length buf - unat (last buf)) buf else buf)"
    by blast
  from buf(2) have "decrypt ciphertext key =
      Returns (if pkcs7_invalid buf then buf else take (length buf - unat (last buf)) buf)"
    by (simp add: pkcs7_invalid_iff)
  with buf(1) show ?thesis by blast
qed

theorem decrypt_always_returns_witness:
  "expected_ciphertext \<noteq> [] \<and> length expected_ciphertext mod 16 = 0 \<and> length test_key = 16 \<and>
   (\<exists>buf. decrypted_buffer expected_ciphertext test_key = Returns buf \<and>
      decrypt expected_ciphertext test_key =
        Returns (if pkcs7_invalid buf then buf else take (length buf - unat (last buf)) buf))"
proof -
  have ne: "expected_ciphertext \<noteq> []" by (simp add: expected_ciphertext_def)
  have m: "length expected_ciphertext mod 16 = 0" by (simp add: test_lengths)
  from decrypt_always_returns[OF ne m test_lengths(2)] ne m test_lengths(2)
  show ?thesis by (intro conjI)
qed

subsection \<open>Argument lengths of encrypt_block\<close>

text \<open>
  C8 (as stated): encrypt_block fails whenever its plaintext is not exactly 16 bytes. It
  does not: a 17-byte plaintext is accepted, bytes_to_state reads its first 16 bytes only.
\<close>

theorem encrypt_block_accepts_long_plaintext:
  "length (test_plaintext @ [0]) = 17 \<and>
   encrypt_block (test_plaintext @ [0]) test_key = Returns expected_ciphertext"
proof -
  have "encrypt_block (test_plaintext @ [0]) test_key =
        encrypt_block (take 16 (test_plaintext @ [0])) test_key"
    by (rule encrypt_block_take) (simp add: test_lengths)
  then show ?thesis by (simp add: test_lengths fips_encrypt_block)
qed

text \<open>
  C8 (amended): encrypt_block fails with InvalidKeyLength whenever its key is not exactly
  16 bytes (key expansion, modelled from the spec, runs first); under a 16-byte key it
  fails with IndexError whenever the plaintext has fewer than 16 bytes; a plaintext of
  more than 16 bytes is not rejected: the result is that of its first 16 bytes.
\<close>

theorem encrypt_block_argument_lengths:
  "(length key \<noteq> 16 \<longrightarrow> encrypt_block plaintext key = Raises InvalidKeyLength) \<and>
   (length key = 16 \<longrightarrow> length plaintext < 16 \<longrightarrow>
      encrypt_block plaintext key = Raises IndexError) \<and>
   (16 \<le> length plaintext \<longrightarrow>
      encrypt_block plaintext key = encrypt_block (take 16 plaintext) key)"
  using encrypt_block_bad_key[of key plaintext] encrypt_block_short[of key plaintext]
    encrypt_block_take[of plaintext key]
  by (intro conjI impI)

theorem encrypt_block_argument_lengths_witness:
  "length ([] :: bytes) \<noteq> 16 \<and> encrypt_block test_plaintext [] = Raises InvalidKeyLength \<and>
   length test_key = 16 \<and> length ([0x32] :: bytes) < 16 \<and>
   encrypt_block [0x32] test_key = Raises IndexError \<and>
   16 \<le> length (test_plaintext @ [0]) \<and>
   encrypt_block (test_plaintext @ [0]) test_key =
     encrypt_block (take 16 (test_plaintext @ [0])) test_key"
proof -
  have a: "length ([] :: bytes) \<noteq> 16" by simp
  have b: "length ([0x32] :: bytes) < 16" by simp
  have c: "16 \<le> length (test_plaintext @ [0])" by (simp add: test_lengths)
  from encrypt_block_argument_lengths[of "[]" test_plaintext] a
  have 1: "encrypt_block test_plaintext [] = Raises InvalidKeyLength" by blast
  from encrypt_block_argument_lengths[of test_key "[0x32]"] b test_lengths(2)
  have 2: "encrypt_block [0x32] test_key = Raises IndexError" by blast
  from encrypt_block_argument_lengths[of test_key "test_plaintext @ [0]"] c
  have 3: "encrypt_block (test_plaintext @ [0]) test_key =
     encrypt_block (take 16 (test_plaintext @ [0])) test_key" by blast
  from a 1 test_lengths(2) b 2 c 3 show ?thesis by (intro conjI)
qed


end
